theory Spec2Isabelle
  imports Complex_Main
begin

section \<open>The search tree of \<^verbatim>\<open>ggpa/mcts_bot.py\<close>\<close>

text \<open>
  The Python keeps a tree of \<^verbatim>\<open>TreeNode\<close> objects that point at each other in both
  directions (\<^verbatim>\<open>parent\<close> and \<^verbatim>\<open>children\<close>) and are updated in place. The model is
  an explicit store: a list of node records addressed by index, a reference to a node
  being its index. A new object is put at the end of the list, so its reference is the
  length of the list before the allocation. An index outside the list would be a
  dangling reference, which Python does not have: the operations are only ever applied,
  and the theorems only stated, where the references lie inside the store.

  Scores are Python floats. Their type is the type variable \<open>'r\<close>, and the float
  operations that the source uses (\<^verbatim>\<open>sum\<close>, \<^verbatim>\<open>/\<close>, \<^verbatim>\<open>>\<close>,
  \<^verbatim>\<open>-float("inf")\<close>, \<^verbatim>\<open>+\<close>, \<^verbatim>\<open>*\<close>, \<^verbatim>\<open>math.sqrt\<close>, \<^verbatim>\<open>math.log\<close>) are
  parameters of the model, the record \<open>arith\<close>: nothing is assumed of them but what a
  theorem states, so rounding, infinities and NaN are whatever the arithmetic of the
  Python run-time makes them.

  The module \<^verbatim>\<open>random\<close> is a list of natural numbers, the draws still to come;
  a list that has run out keeps drawing 0. Every call into the game that may draw
  (\<^verbatim>\<open>state.step\<close>, \<^verbatim>\<open>state.apply_action\<close>, \<^verbatim>\<open>copy_undeterministic\<close>)
  takes the draws and returns the ones it left.
\<close>

subsection \<open>Data\<close>

datatype error = ValueError | IndexError | KeyError

type_synonym rng = "nat list"

record ('a, 'k, 'r) node =
  param :: 'r
  parent :: "nat option"
  action :: "'a option"
  children :: "('k \<times> nat) list"
  results :: "'r list"
  visits :: nat

text \<open>
  The field \<open>trace\<close> is not in the Python: it is a history variable that records, in
  order, every call of \<^verbatim>\<open>backpropagate\<close> (with the node it was called on) and every
  \<^verbatim>\<open>rollout\<close> that finished its playout. No operation reads it.
\<close>

datatype 'r event = Rollout nat 'r | Backprop nat 'r

record ('a, 'k, 'r) store =
  nodes :: "('a, 'k, 'r) node list"
  trace :: "'r event list"

text \<open>
  The game is not in the repository's source file: \<^verbatim>\<open>BattleState\<close> and the action
  objects are taken as parameters, one function for each method the tree calls.
\<close>

record ('s, 'a, 'k, 'r) game =
  get_actions :: "'s \<Rightarrow> 'a list"
  state_step :: "'s \<Rightarrow> 'a \<Rightarrow> rng \<Rightarrow> 's \<times> rng"
  apply_action :: "'s \<Rightarrow> 'k \<Rightarrow> rng \<Rightarrow> 's \<times> rng"
  ended :: "'s \<Rightarrow> bool"
  score :: "'s \<Rightarrow> 'r"
  copy_undeterministic :: "'s \<Rightarrow> rng \<Rightarrow> 's \<times> rng"
  key :: "'a \<Rightarrow> 'k"




text \<open>
  The float arithmetic of the run-time. \<open>fsum\<close> is \<^verbatim>\<open>sum\<close> of a list of floats,
  \<open>fdiv_int x n\<close> is \<^verbatim>\<open>x / n\<close> for a float and a positive \<^verbatim>\<open>int\<close>, \<open>fgt\<close> is
  \<^verbatim>\<open>>\<close>, \<open>neg_inf\<close> is \<^verbatim>\<open>-float("inf")\<close>, and \<open>fzero\<close> is the \<^verbatim>\<open>int\<close> 0 where a
  float is expected. At every call of the source the divisor is positive.
  \<^verbatim>\<open>select\<close> also adds and multiplies floats and calls \<^verbatim>\<open>math.sqrt\<close>, and
  \<^verbatim>\<open>math.log\<close> on an \<^verbatim>\<open>int\<close>.
\<close>

record 'r arith =
  fsum :: "'r list \<Rightarrow> 'r"
  fdiv_int :: "'r \<Rightarrow> nat \<Rightarrow> 'r"
  fgt :: "'r \<Rightarrow> 'r \<Rightarrow> bool"
  neg_inf :: "'r"
  fzero :: "'r"

record 'r ucb_arith = "'r arith" +
  fadd :: "'r \<Rightarrow> 'r \<Rightarrow> 'r"
  fmul :: "'r \<Rightarrow> 'r \<Rightarrow> 'r"
  fsqrt :: "'r \<Rightarrow> 'r"
  flog :: "nat \<Rightarrow> 'r"

subsection \<open>Library functions of Python\<close>

text \<open>
  \<^verbatim>\<open>random.choice(xs)\<close>. \<open>pick\<close> is the draw from a sequence known to be
  non-empty; \<open>choice\<close> is the library function, which raises IndexError on an empty
  sequence.
\<close>

definition pick :: "'x list \<Rightarrow> rng \<Rightarrow> 'x \<times> rng" where
  "pick xs rng = (case rng of [] \<Rightarrow> (xs ! 0, []) | r # rs \<Rightarrow> (xs ! (r mod length xs), rs))"

definition choice :: "'x list \<Rightarrow> rng \<Rightarrow> error + ('x \<times> rng)" where
  "choice xs rng = (if xs = [] then Inl IndexError else Inr (pick xs rng))"

text \<open>
  \<^verbatim>\<open>d[k] = v\<close> on a dict, which keeps insertion order: an existing key keeps its
  place and gets the new value, a new key goes to the end.
\<close>

fun dict_set :: "('k \<times> 'v) list \<Rightarrow> 'k \<Rightarrow> 'v \<Rightarrow> ('k \<times> 'v) list" where
  "dict_set [] k v = [(k, v)]"
| "dict_set ((k', v') # kvs) k v =
     (if k' = k then (k, v) # kvs else (k', v') # dict_set kvs k v)"

text \<open>
  \<^verbatim>\<open>max(xs, key=f)\<close>: ValueError on an empty sequence; otherwise the first item is
  kept until an item's key is \<^verbatim>\<open>>\<close> the key of the one kept. \<open>gt\<close> is that
  comparison.
\<close>

fun max_from :: "('r \<Rightarrow> 'r \<Rightarrow> bool) \<Rightarrow> ('x \<Rightarrow> 'r) \<Rightarrow> 'x \<Rightarrow> 'x list \<Rightarrow> 'x" where
  "max_from gt f best [] = best"
| "max_from gt f best (x # xs) = max_from gt f (if gt (f x) (f best) then x else best) xs"

definition max_key :: "('r \<Rightarrow> 'r \<Rightarrow> bool) \<Rightarrow> ('x \<Rightarrow> 'r) \<Rightarrow> 'x list \<Rightarrow> error + 'x" where
  "max_key gt f xs =
     (case xs of [] \<Rightarrow> Inl ValueError | x # xs' \<Rightarrow> Inr (max_from gt f x xs'))"

subsection \<open>\<^verbatim>\<open>TreeNode\<close>\<close>

text \<open>\<^verbatim>\<open>TreeNode(param, parent, action)\<close>\<close>

definition TreeNode :: "'r \<Rightarrow> nat option \<Rightarrow> 'a option \<Rightarrow> ('a, 'k, 'r) node" where
  "TreeNode p par act =
     \<lparr>param = p, parent = par, action = act, children = [], results = [], visits = 0\<rparr>"

text \<open>The tree of a new decision: the root alone, at address 0.\<close>

definition fresh_tree :: "'r \<Rightarrow> ('a, 'k, 'r) store" where
  "fresh_tree p = \<lparr>nodes = [TreeNode p None None], trace = []\<rparr>"

text \<open>\<^verbatim>\<open>backpropagate(self, result)\<close>, \<open>n\<close> the address of \<^verbatim>\<open>self\<close>.\<close>

partial_function (option) backpropagate ::
  "('a, 'k, 'r) store \<Rightarrow> nat \<Rightarrow> 'r \<Rightarrow> ('a, 'k, 'r) store option" where
  "backpropagate st n result =
     (let nd = nodes st ! n;
          nd' = nd\<lparr>visits := visits nd + 1, results := results nd @ [result]\<rparr>;
          st' = st\<lparr>nodes := (nodes st)[n := nd'], trace := trace st @ [Backprop n result]\<rparr>
      in case parent nd of
           None \<Rightarrow> Some st'
         | Some p \<Rightarrow> backpropagate st' p result)"

text \<open>The \<^verbatim>\<open>while\<close> loop of \<^verbatim>\<open>rollout\<close>; it may run forever.\<close>

partial_function (option) rollout_loop ::
  "('s, 'a, 'k, 'r) game \<Rightarrow> 's \<Rightarrow> rng \<Rightarrow> ('s \<times> rng) option" where
  "rollout_loop g s rng =
     (if ended g s then Some (s, rng)
      else let actions = get_actions g s in
        if actions = [] then Some (s, rng)
        else case pick actions rng of (a, rng1) \<Rightarrow>
               (case state_step g s a rng1 of (s', rng2) \<Rightarrow> rollout_loop g s' rng2))"

definition rollout ::
  "('s, 'a, 'k, 'r) game \<Rightarrow> ('a, 'k, 'r) store \<Rightarrow> nat \<Rightarrow> 's \<Rightarrow> rng \<Rightarrow>
     (('a, 'k, 'r) store \<times> 's \<times> rng) option" where
  "rollout g st n s rng =
     (case rollout_loop g s rng of
        None \<Rightarrow> None
      | Some (s', rng') \<Rightarrow>
          (case backpropagate (st\<lparr>trace := trace st @ [Rollout n (score g s')]\<rparr>) n (score g s') of
             None \<Rightarrow> None
           | Some st' \<Rightarrow> Some (st', s', rng')))"

text \<open>
  \<^verbatim>\<open>expand(self, state, unexplored)\<close>. The new child is allocated at the end of the
  store; \<^verbatim>\<open>self.children[action.key()] = child\<close> is the dict assignment.
\<close>

definition expand ::
  "('s, 'a, 'k, 'r) game \<Rightarrow> ('a, 'k, 'r) store \<Rightarrow> nat \<Rightarrow> 's \<Rightarrow> 'a list \<Rightarrow> rng \<Rightarrow>
     (error + ('a, 'k, 'r) store \<times> 's \<times> rng) option" where
  "expand g st n s unexplored rng =
     (case choice unexplored rng of
        Inl e \<Rightarrow> Some (Inl e)
      | Inr (a, rng1) \<Rightarrow>
          (case state_step g s a rng1 of (s', rng2) \<Rightarrow>
             let c = length (nodes st);
                 child = TreeNode (param (nodes st ! n)) (Some n) (Some a);
                 nd = nodes st ! n;
                 nd' = nd\<lparr>children := dict_set (children nd) (key g a) c\<rparr>;
                 st' = st\<lparr>nodes := (nodes st @ [child])[n := nd']\<rparr>
             in (case rollout g st' c s' rng2 of
                   None \<Rightarrow> None
                 | Some r \<Rightarrow> Some (Inr r))))"

text \<open>\<^verbatim>\<open>step(self, state)\<close>\<close>

partial_function (option) step ::
  "('s, 'a, 'k, 'r) game \<Rightarrow> ('a, 'k, 'r) store \<Rightarrow> nat \<Rightarrow> 's \<Rightarrow> rng \<Rightarrow>
     (error + ('a, 'k, 'r) store \<times> 's \<times> rng) option" where
  "step g st n s rng =
     (let actions = get_actions g s in
      if actions = [] then Some (Inr (st, s, rng))
      else
        let unexplored = filter (\<lambda>a. map_of (children (nodes st ! n)) (key g a) = None) actions in
        if unexplored \<noteq> [] then expand g st n s unexplored rng
        else case pick actions rng of (a, rng1) \<Rightarrow>
          (case state_step g s a rng1 of (s', rng2) \<Rightarrow>
             (case map_of (children (nodes st ! n)) (key g a) of
                None \<Rightarrow> Some (Inr (st, s', rng2))
              | Some c \<Rightarrow> step g st c s' rng2)))"

text \<open>
  \<^verbatim>\<open>get_best(self, state)\<close>. \<open>avg\<close> is \<^verbatim>\<open>sum(child.results) / child.visits\<close>;
  the loop over \<^verbatim>\<open>self.children.values()\<close> carries \<^verbatim>\<open>best\<close> and \<^verbatim>\<open>best_avg\<close>.
\<close>

definition avg :: "('r, 'm) arith_scheme \<Rightarrow> ('a, 'k, 'r) store \<Rightarrow> nat \<Rightarrow> 'r" where
  "avg ar st c = fdiv_int ar (fsum ar (results (nodes st ! c))) (visits (nodes st ! c))"

fun get_best_loop ::
  "('r, 'm) arith_scheme \<Rightarrow> ('a, 'k, 'r) store \<Rightarrow> nat list \<Rightarrow> nat option \<Rightarrow> 'r \<Rightarrow>
     nat option" where
  "get_best_loop ar st [] best best_avg = best"
| "get_best_loop ar st (c # cs) best best_avg =
     (if visits (nodes st ! c) > 0 then
        (if fgt ar (avg ar st c) best_avg
         then get_best_loop ar st cs (Some c) (avg ar st c)
         else get_best_loop ar st cs best best_avg)
      else get_best_loop ar st cs best best_avg)"

definition get_best ::
  "('r, 'm) arith_scheme \<Rightarrow> ('s, 'a, 'k, 'r) game \<Rightarrow> ('a, 'k, 'r) store \<Rightarrow> nat \<Rightarrow> 's \<Rightarrow> rng \<Rightarrow>
     'a option \<times> rng" where
  "get_best ar g st n s rng =
     (if children (nodes st ! n) = [] then
        (let actions = get_actions g s in
         if actions \<noteq> [] then (case pick actions rng of (a, rng1) \<Rightarrow> (Some a, rng1))
         else (None, rng))
      else
        (case get_best_loop ar st (map snd (children (nodes st ! n))) None (neg_inf ar) of
           None \<Rightarrow> (None, rng)
         | Some b \<Rightarrow> (action (nodes st ! b), rng)))"

text \<open>
  \<^verbatim>\<open>select(self, state)\<close>. \<open>ucb\<close> is the \<^verbatim>\<open>key\<close> function of the \<^verbatim>\<open>max\<close>, for
  the item whose child is at address \<open>c\<close>. \<^verbatim>\<open>best_action\<close> is the first component of
  the item, that is the dict key, and it is what \<^verbatim>\<open>apply_action\<close> is given.
\<close>

definition ucb :: "'r ucb_arith \<Rightarrow> ('a, 'k, 'r) store \<Rightarrow> nat \<Rightarrow> nat \<Rightarrow> 'r" where
  "ucb ar st n c =
     fadd ar
       (if results (nodes st ! c) \<noteq> []
        then fdiv_int ar (fsum ar (results (nodes st ! c))) (length (results (nodes st ! c)))
        else fzero ar)
       (fmul ar (param (nodes st ! n))
          (fsqrt ar
             (fdiv_int ar (flog ar (length (results (nodes st ! n)) + 1))
                (1 + length (results (nodes st ! c))))))"

partial_function (option) select ::
  "'r ucb_arith \<Rightarrow> ('s, 'a, 'k, 'r) game \<Rightarrow> ('a, 'k, 'r) store \<Rightarrow> nat \<Rightarrow> 's \<Rightarrow> rng \<Rightarrow>
     (error + ('a, 'k, 'r) store \<times> 's \<times> rng) option" where
  "select ar g st n s rng =
     (let available_actions = get_actions g s in
      if length (children (nodes st ! n)) < length available_actions
      then expand g st n s available_actions rng
      else case max_key (fgt ar) (\<lambda>item. ucb ar st n (snd item)) (children (nodes st ! n)) of
             Inl e \<Rightarrow> Some (Inl e)
           | Inr item \<Rightarrow>
               (case apply_action g s (fst item) rng of (s', rng1) \<Rightarrow>
                  (case map_of (children (nodes st ! n)) (fst item) of
                     None \<Rightarrow> Some (Inl KeyError)
                   | Some c \<Rightarrow> select ar g st c s' rng1)))"




text \<open>\<^verbatim>\<open>score(self, state)\<close>\<close>

definition node_score :: "('s, 'a, 'k, 'r) game \<Rightarrow> 's \<Rightarrow> 'r" where
  "node_score g s = score g s"

subsection \<open>\<^verbatim>\<open>MCTSAgent\<close>\<close>

text \<open>
  The loop \<^verbatim>\<open>for i in range(self.iterations)\<close> of \<^verbatim>\<open>choose_card\<close>; \<open>t\<close> is the
  store, whose root is at address 0.
\<close>

fun iterate ::
  "('s, 'a, 'k, 'r) game \<Rightarrow> nat \<Rightarrow> ('a, 'k, 'r) store \<Rightarrow> 's \<Rightarrow> rng \<Rightarrow>
     (error + ('a, 'k, 'r) store \<times> rng) option" where
  "iterate g 0 t battle_state rng = Some (Inr (t, rng))"
| "iterate g (Suc i) t battle_state rng =
     (case copy_undeterministic g battle_state rng of (sample_state, rng1) \<Rightarrow>
        (case step g t 0 sample_state rng1 of
           None \<Rightarrow> None
         | Some (Inl e) \<Rightarrow> Some (Inl e)
         | Some (Inr (t', s', rng2)) \<Rightarrow> iterate g i t' battle_state rng2))"


text \<open>\<^verbatim>\<open>choose_agent_target\<close> and \<^verbatim>\<open>choose_card_target\<close>: the first of the list.\<close>

definition choose_agent_target :: "'x list \<Rightarrow> error + 'x" where
  "choose_agent_target agent_list = (case agent_list of [] \<Rightarrow> Inl IndexError | x # _ \<Rightarrow> Inr x)"

definition choose_card_target :: "'x list \<Rightarrow> error + 'x" where
  "choose_card_target card_list = (case card_list of [] \<Rightarrow> Inl IndexError | x # _ \<Rightarrow> Inr x)"

section \<open>Vocabulary of the specification\<close>

subsection \<open>The history of a store\<close>

text \<open>
  Reading the history variable: the calls of \<^verbatim>\<open>backpropagate\<close> on a node, and the
  rollouts that ran to the end of their playout.
\<close>

fun is_backprop_at :: "nat \<Rightarrow> 'r event \<Rightarrow> bool" where
  "is_backprop_at n (Backprop m r) = (m = n)"
| "is_backprop_at n (Rollout m r) = False"

fun is_rollout :: "'r event \<Rightarrow> bool" where
  "is_rollout (Rollout m r) = True"
| "is_rollout (Backprop m r) = False"

fun event_node :: "'r event \<Rightarrow> nat" where
  "event_node (Rollout m r) = m"
| "event_node (Backprop m r) = m"

definition backprop_calls :: "('a, 'k, 'r) store \<Rightarrow> nat \<Rightarrow> nat" where
  "backprop_calls st n = length (filter (is_backprop_at n) (trace st))"

definition completed_rollouts :: "('a, 'k, 'r) store \<Rightarrow> nat" where
  "completed_rollouts st = length (filter is_rollout (trace st))"

subsection \<open>Well-formed stores\<close>

text \<open>
  A store is a tree of Python objects when the root is the only node without a parent,
  every other node was allocated after its parent, every entry of a \<^verbatim>\<open>children\<close>
  dict refers to a node that was allocated later and names this node as its parent, and
  the statistics of every node agree with the history. References are then never
  dangling, and following \<^verbatim>\<open>parent\<close> ends at the root.
\<close>

definition wf_node :: "('a, 'k, 'r) store \<Rightarrow> nat \<Rightarrow> bool" where
  "wf_node st n \<longleftrightarrow>
     (case parent (nodes st ! n) of None \<Rightarrow> n = 0 | Some p \<Rightarrow> p < n) \<and>
     (\<forall>kc \<in> set (children (nodes st ! n)).
        n < snd kc \<and> snd kc < length (nodes st) \<and> parent (nodes st ! snd kc) = Some n) \<and>
     visits (nodes st ! n) = length (results (nodes st ! n)) \<and>
     length (results (nodes st ! n)) = backprop_calls st n"

definition wf_store :: "('a, 'k, 'r) store \<Rightarrow> bool" where
  "wf_store st \<longleftrightarrow>
     nodes st \<noteq> [] \<and>
     (\<forall>n < length (nodes st). wf_node st n) \<and>
     (\<forall>e \<in> set (trace st). event_node e < length (nodes st))"

text \<open>
  The two updates of the store that the operations are made of: one activation of
  \<^verbatim>\<open>backpropagate\<close> without its recursive call, and the allocation and linking of a
  child in \<^verbatim>\<open>expand\<close>.
\<close>

definition bump :: "('a, 'k, 'r) store \<Rightarrow> nat \<Rightarrow> 'r \<Rightarrow> ('a, 'k, 'r) store" where
  "bump st n r =
     st\<lparr>nodes := (nodes st)[n := (nodes st ! n)\<lparr>visits := visits (nodes st ! n) + 1,
                                               results := results (nodes st ! n) @ [r]\<rparr>],
        trace := trace st @ [Backprop n r]\<rparr>"

definition add_child :: "('a, 'k, 'r) store \<Rightarrow> nat \<Rightarrow> 'a \<Rightarrow> 'k \<Rightarrow> ('a, 'k, 'r) store" where
  "add_child st n a k =
     st\<lparr>nodes := (nodes st @ [TreeNode (param (nodes st ! n)) (Some n) (Some a)])
                    [n := (nodes st ! n)\<lparr>children :=
                            dict_set (children (nodes st ! n)) k (length (nodes st))\<rparr>]\<rparr>"

text \<open>
  Relations between the store before and after an operation. \<open>stats_only\<close>: the same
  nodes with the same links, and outcomes only appended. \<open>keeps\<close>: no node is lost,
  and the old nodes keep their parent, action and parameter, and their outcomes as a
  prefix. \<open>entries_kept\<close>: every entry of every \<^verbatim>\<open>children\<close> dict is still there,
  under the same key and for the same child. \<open>step_rel\<close>: what one call of
  \<^verbatim>\<open>step\<close> on node \<open>n\<close> does to the store.
\<close>

definition stats_only :: "('a, 'k, 'r) store \<Rightarrow> ('a, 'k, 'r) store \<Rightarrow> bool" where
  "stats_only st st' \<longleftrightarrow>
     length (nodes st') = length (nodes st) \<and>
     (\<forall>m < length (nodes st).
        children (nodes st' ! m) = children (nodes st ! m) \<and>
        parent (nodes st' ! m) = parent (nodes st ! m) \<and>
        action (nodes st' ! m) = action (nodes st ! m) \<and>
        param (nodes st' ! m) = param (nodes st ! m) \<and>
        (\<exists>rs. results (nodes st' ! m) = results (nodes st ! m) @ rs))"

definition keeps :: "('a, 'k, 'r) store \<Rightarrow> ('a, 'k, 'r) store \<Rightarrow> bool" where
  "keeps st st' \<longleftrightarrow>
     length (nodes st) \<le> length (nodes st') \<and>
     (\<forall>m < length (nodes st).
        parent (nodes st' ! m) = parent (nodes st ! m) \<and>
        action (nodes st' ! m) = action (nodes st ! m) \<and>
        param (nodes st' ! m) = param (nodes st ! m) \<and>
        (\<exists>rs. results (nodes st' ! m) = results (nodes st ! m) @ rs))"

definition entries_kept :: "('a, 'k, 'r) store \<Rightarrow> ('a, 'k, 'r) store \<Rightarrow> bool" where
  "entries_kept st st' \<longleftrightarrow>
     (\<forall>m < length (nodes st). \<forall>k c.
        map_of (children (nodes st ! m)) k = Some c \<longrightarrow>
        map_of (children (nodes st' ! m)) k = Some c)"

definition step_rel :: "('a, 'k, 'r) store \<Rightarrow> nat \<Rightarrow> ('a, 'k, 'r) store \<Rightarrow> bool" where
  "step_rel st n st' \<longleftrightarrow>
     wf_store st' \<and> keeps st st' \<and> entries_kept st st' \<and>
     visits (nodes st' ! 0) + completed_rollouts st
       = visits (nodes st ! 0) + completed_rollouts st' \<and>
     completed_rollouts st' \<le> completed_rollouts st + 1 \<and>
     (\<forall>m < n. children (nodes st' ! m) = children (nodes st ! m))"

subsection \<open>Stores reachable from a fresh root\<close>

text \<open>
  Any sequence of the operations that change the tree, each one on a node of the store
  and with any state, candidates and draws; an operation counts when it returns without
  an exception. \<^verbatim>\<open>get_best\<close> and \<^verbatim>\<open>print_tree\<close> do not change the store.
\<close>

inductive reachable :: "('s, 'a, 'k, 'r) game \<Rightarrow> ('a, 'k, 'r) store \<Rightarrow> bool" for g where
  fresh: "reachable g (fresh_tree p)"
| by_step: "reachable g st \<Longrightarrow> n < length (nodes st) \<Longrightarrow>
     step g st n s rng = Some (Inr (st', s', rng')) \<Longrightarrow> reachable g st'"
| by_expand: "reachable g st \<Longrightarrow> n < length (nodes st) \<Longrightarrow>
     expand g st n s cands rng = Some (Inr (st', s', rng')) \<Longrightarrow> reachable g st'"
| by_rollout: "reachable g st \<Longrightarrow> n < length (nodes st) \<Longrightarrow>
     rollout g st n s rng = Some (st', s', rng') \<Longrightarrow> reachable g st'"
| by_backpropagate: "reachable g st \<Longrightarrow> n < length (nodes st) \<Longrightarrow>
     backpropagate st n r = Some st' \<Longrightarrow> reachable g st'"
| by_select: "reachable g st \<Longrightarrow> n < length (nodes st) \<Longrightarrow>
     select ar g st n s rng = Some (Inr (st', s', rng')) \<Longrightarrow> reachable g st'"

subsection \<open>Statistics\<close>

text \<open>
  The statistics of a node that \<^verbatim>\<open>get_best\<close> can see: visits, outcomes and incoming
  action.
\<close>

definition node_stats :: "('a, 'k, 'r) store \<Rightarrow> nat \<Rightarrow> nat \<times> 'r list \<times> 'a option" where
  "node_stats st c = (visits (nodes st ! c), results (nodes st ! c), action (nodes st ! c))"

definition child_stats ::
  "('a, 'k, 'r) store \<Rightarrow> nat \<Rightarrow> (nat \<times> 'r list \<times> 'a option) list" where
  "child_stats st n =
     map (\<lambda>kc. (visits (nodes st ! snd kc), results (nodes st ! snd kc),
                 action (nodes st ! snd kc)))
       (children (nodes st ! n))"

subsection \<open>Binary floating point\<close>

text \<open>
  The floats of CPython are IEEE 754 binary64 numbers: the finite ones are the
  multiples \<open>m * 2 ^ (e - 52)\<close> with \<open>\<bar>m\<bar> < 2 ^ 53\<close> and \<open>- 1022 \<le> e \<le> 1023\<close>, and
  there are two infinities and NaN. The result of an operation is the exact result
  rounded to the nearest float, to the one with the even significand when two are
  equally near (\<open>round_even\<close> on the grid of step \<open>ulp64\<close>), and to an infinity when
  that is beyond the largest float. The sign of zero is not represented.
  \<^verbatim>\<open>sum\<close> starts from 0 and adds the items from left to right, each addition
  rounded. (From version 3.12 on CPython also carries the rounding errors along and
  adds them at the end; at the lists summed in this theory that last addition changes
  nothing.) A comparison with NaN is false.
\<close>

datatype float64 = Finite real | PosInf | NegInf | NaN

definition round_even :: "real \<Rightarrow> real \<Rightarrow> real" where
  "round_even u x =
     (let q = x / u; f = \<lfloor>q\<rfloor>; d = q - of_int f
      in if d < 1 / 2 then of_int f * u
         else if 1 / 2 < d then (of_int f + 1) * u
         else if even f then of_int f * u else (of_int f + 1) * u)"

definition ulp64 :: "real \<Rightarrow> real" where
  "ulp64 x = 2 powr (of_int (max \<lfloor>log 2 \<bar>x\<bar>\<rfloor> (- 1022)) - 52)"

definition round64 :: "real \<Rightarrow> float64" where
  "round64 x =
     (if x = 0 then Finite 0
      else let y = round_even (ulp64 x) x
           in if 2 ^ 1024 \<le> \<bar>y\<bar> then (if 0 < x then PosInf else NegInf) else Finite y)"

fun add64 :: "float64 \<Rightarrow> float64 \<Rightarrow> float64" where
  "add64 (Finite x) (Finite y) = round64 (x + y)"
| "add64 NaN b = NaN"
| "add64 a NaN = NaN"
| "add64 PosInf NegInf = NaN"
| "add64 NegInf PosInf = NaN"
| "add64 PosInf b = PosInf"
| "add64 NegInf b = NegInf"
| "add64 a PosInf = PosInf"
| "add64 a NegInf = NegInf"

definition sum64 :: "float64 list \<Rightarrow> float64" where
  "sum64 xs = foldl add64 (Finite 0) xs"

text \<open>A float divided by a positive \<^verbatim>\<open>int\<close> below \<open>2 ^ 53\<close>.\<close>

fun div64 :: "float64 \<Rightarrow> nat \<Rightarrow> float64" where
  "div64 (Finite x) n = round64 (x / real n)"
| "div64 a n = a"

fun gt64 :: "float64 \<Rightarrow> float64 \<Rightarrow> bool" where
  "gt64 NaN b = False"
| "gt64 a NaN = False"
| "gt64 (Finite x) (Finite y) = (y < x)"
| "gt64 PosInf PosInf = False"
| "gt64 PosInf b = True"
| "gt64 a NegInf = (a \<noteq> NegInf)"
| "gt64 a PosInf = False"
| "gt64 NegInf b = False"

definition binary64 :: "float64 arith" where
  "binary64 =
     \<lparr>fsum = sum64, fdiv_int = div64, fgt = gt64, neg_inf = NegInf, fzero = Finite 0\<rparr>"

text \<open>
  The arithmetic mean of a node's outcomes as a real number, without rounding; there
  is none when an outcome is not finite.
\<close>

fun reals_of :: "float64 list \<Rightarrow> real list option" where
  "reals_of [] = Some []"
| "reals_of (Finite x # xs) = map_option ((#) x) (reals_of xs)"
| "reals_of (a # xs) = None"

definition mean_outcome :: "('a, 'k, float64) store \<Rightarrow> nat \<Rightarrow> real option" where
  "mean_outcome st c =
     map_option (\<lambda>xs. sum_list xs / real (length xs)) (reals_of (results (nodes st ! c)))"

subsection \<open>A small game and its trees\<close>

text \<open>
  A game to run the operations on. A state is the number of moves left and the total
  played so far; the two actions 10 and 20 are legal while a move is left; a move adds
  its action to the total; the score is the total. Actions are their own keys, and a
  snapshot is the state itself.
\<close>

definition sum_game :: "(nat \<times> nat, nat, nat, float64) game" where
  "sum_game =
     \<lparr>get_actions = (\<lambda>s. if fst s = 0 then [] else [10, 20]),
      state_step = (\<lambda>s a rng. ((fst s - 1, snd s + a), rng)),
      apply_action = (\<lambda>s k rng. ((fst s - 1, snd s + k), rng)),
      ended = (\<lambda>s. fst s = 0),
      score = (\<lambda>s. Finite (real (snd s))),
      copy_undeterministic = (\<lambda>s rng. (s, rng)),
      key = (\<lambda>a. a)\<rparr>"

text \<open>The tree after one and after two iterations from the state \<open>(1, 0)\<close>.\<close>

definition tree1 :: "(nat, nat, float64) store" where
  "tree1 =
     \<lparr>nodes =
        [\<lparr>param = Finite (1 / 2), parent = None, action = None, children = [(10, 1)],
          results = [Finite 10], visits = 1\<rparr>,
         \<lparr>param = Finite (1 / 2), parent = Some 0, action = Some 10, children = [],
          results = [Finite 10], visits = 1\<rparr>],
      trace = [Rollout 1 (Finite 10), Backprop 1 (Finite 10), Backprop 0 (Finite 10)]\<rparr>"

definition tree2 :: "(nat, nat, float64) store" where
  "tree2 =
     \<lparr>nodes =
        [\<lparr>param = Finite (1 / 2), parent = None, action = None, children = [(10, 1), (20, 2)],
          results = [Finite 10, Finite 20], visits = 2\<rparr>,
         \<lparr>param = Finite (1 / 2), parent = Some 0, action = Some 10, children = [],
          results = [Finite 10], visits = 1\<rparr>,
         \<lparr>param = Finite (1 / 2), parent = Some 0, action = Some 20, children = [],
          results = [Finite 20], visits = 1\<rparr>],
      trace = [Rollout 1 (Finite 10), Backprop 1 (Finite 10), Backprop 0 (Finite 10),
               Rollout 2 (Finite 20), Backprop 2 (Finite 20), Backprop 0 (Finite 20)]\<rparr>"

text \<open>
  The tree that \<^verbatim>\<open>select\<close> makes of \<open>tree1\<close> from the state \<open>(1, 5)\<close> when
  the draw is 0.
\<close>

definition tree1_replaced :: "(nat, nat, float64) store" where
  "tree1_replaced =
     \<lparr>nodes =
        [\<lparr>param = Finite (1 / 2), parent = None, action = None, children = [(10, 2)],
          results = [Finite 10, Finite 15], visits = 2\<rparr>,
         \<lparr>param = Finite (1 / 2), parent = Some 0, action = Some 10, children = [],
          results = [Finite 10], visits = 1\<rparr>,
         \<lparr>param = Finite (1 / 2), parent = Some 0, action = Some 10, children = [],
          results = [Finite 15], visits = 1\<rparr>],
      trace = [Rollout 1 (Finite 10), Backprop 1 (Finite 10), Backprop 0 (Finite 10),
               Rollout 2 (Finite 15), Backprop 2 (Finite 15), Backprop 0 (Finite 15)]\<rparr>"

text \<open>
  Two trees with two visited children under the root. In the first the outcomes are
  \<open>5 * 10 ^ 15\<close> for action 10 and \<open>10 ^ 16\<close> and 1 for action 20; in the second the
  outcome of the first child is minus infinity and that of the second is NaN.
\<close>

definition tree_tie :: "(nat, nat, float64) store" where
  "tree_tie =
     \<lparr>nodes =
        [\<lparr>param = Finite (1 / 2), parent = None, action = None, children = [(10, 1), (20, 2)],
          results = [Finite 5000000000000000, Finite 10000000000000000, Finite 1], visits = 3\<rparr>,
         \<lparr>param = Finite (1 / 2), parent = Some 0, action = Some 10, children = [],
          results = [Finite 5000000000000000], visits = 1\<rparr>,
         \<lparr>param = Finite (1 / 2), parent = Some 0, action = Some 20, children = [],
          results = [Finite 10000000000000000, Finite 1], visits = 2\<rparr>],
      trace = []\<rparr>"

definition tree_neg_inf :: "(nat, nat, float64) store" where
  "tree_neg_inf =
     \<lparr>nodes =
        [\<lparr>param = Finite (1 / 2), parent = None, action = None, children = [(10, 1), (20, 2)],
          results = [NegInf, NaN], visits = 2\<rparr>,
         \<lparr>param = Finite (1 / 2), parent = Some 0, action = Some 10, children = [],
          results = [NegInf], visits = 1\<rparr>,
         \<lparr>param = Finite (1 / 2), parent = Some 0, action = Some 20, children = [],
          results = [NaN], visits = 1\<rparr>],
      trace = []\<rparr>"



section \<open>Lemmas\<close>

lemma wf_fresh_tree: "wf_store (fresh_tree p)"
  by (simp add: wf_store_def wf_node_def fresh_tree_def TreeNode_def backprop_calls_def)

lemma backpropagate_bump:
  "backpropagate st n r =
     (case parent (nodes st ! n) of None \<Rightarrow> Some (bump st n r)
      | Some p \<Rightarrow> backpropagate (bump st n r) p r)"
  by (subst backpropagate.simps) (simp add: bump_def Let_def split: option.split)

lemma length_bump [simp]: "length (nodes (bump st n r)) = length (nodes st)"
  by (simp add: bump_def)

lemma nodes_bump:
  "m < length (nodes st) \<Longrightarrow>
   nodes (bump st n r) ! m =
     (if m = n then (nodes st ! n)\<lparr>visits := visits (nodes st ! n) + 1,
                                   results := results (nodes st ! n) @ [r]\<rparr>
      else nodes st ! m)"
  by (simp add: bump_def nth_list_update)

lemma trace_bump [simp]: "trace (bump st n r) = trace st @ [Backprop n r]"
  by (simp add: bump_def)

lemma parent_bump [simp]:
  "m < length (nodes st) \<Longrightarrow> parent (nodes (bump st n r) ! m) = parent (nodes st ! m)"
  by (simp add: nodes_bump)

lemma children_bump [simp]:
  "m < length (nodes st) \<Longrightarrow> children (nodes (bump st n r) ! m) = children (nodes st ! m)"
  by (simp add: nodes_bump)

lemma results_bump:
  "m < length (nodes st) \<Longrightarrow>
   results (nodes (bump st n r) ! m) = results (nodes st ! m) @ (if m = n then [r] else [])"
  by (simp add: nodes_bump)

lemma visits_bump:
  "m < length (nodes st) \<Longrightarrow>
   visits (nodes (bump st n r) ! m) = visits (nodes st ! m) + (if m = n then 1 else 0)"
  by (simp add: nodes_bump)

lemma backprop_calls_bump:
  "backprop_calls (bump st n r) m = backprop_calls st m + (if m = n then 1 else 0)"
  by (simp add: backprop_calls_def)

lemma wf_node_bump:
  assumes "wf_store st" "n < length (nodes st)" "m < length (nodes st)"
  shows "wf_node (bump st n r) m"
proof -
  from assms have m: "wf_node st m" by (simp add: wf_store_def)
  have kids: "\<forall>kc \<in> set (children (nodes st ! m)). snd kc < length (nodes st)"
    using m by (simp add: wf_node_def)
  show ?thesis
    using m kids assms(3)
    by (auto simp: wf_node_def results_bump visits_bump backprop_calls_bump)
qed

lemma wf_bump:
  assumes "wf_store st" "n < length (nodes st)"
  shows "wf_store (bump st n r)"
  using assms wf_node_bump [OF assms]
  by (auto simp: wf_store_def bump_def)

lemma stats_only_bump: "stats_only st (bump st n r)"
  by (simp add: stats_only_def nodes_bump)

lemma completed_rollouts_bump [simp]: "completed_rollouts (bump st n r) = completed_rollouts st"
  by (simp add: completed_rollouts_def)

lemma stats_only_trans: "stats_only a b \<Longrightarrow> stats_only b c \<Longrightarrow> stats_only a c"
  unfolding stats_only_def by (auto, metis append.assoc)

lemma backpropagate_total:
  assumes "wf_store st" "n < length (nodes st)"
  shows "\<exists>st'. backpropagate st n r = Some st' \<and> wf_store st' \<and> stats_only st st' \<and>
           completed_rollouts st' = completed_rollouts st \<and>
           (\<forall>m. n < m \<longrightarrow> nodes st' ! m = nodes st ! m) \<and>
           visits (nodes st' ! 0) = visits (nodes st ! 0) + 1 \<and>
           visits (nodes st' ! n) = visits (nodes st ! n) + 1"
  using assms
proof (induction n arbitrary: st rule: less_induct)
  case (less n)
  let ?b = "bump st n r"
  have wfb: "wf_store ?b" using less.prems by (rule wf_bump)
  have wn: "wf_node st n" using less.prems by (simp add: wf_store_def)
  have len0: "0 < length (nodes st)" using less.prems by auto
  have above: "\<forall>m. n < m \<longrightarrow> nodes ?b ! m = nodes st ! m"
    by (simp add: bump_def)
  have vn: "visits (nodes ?b ! n) = visits (nodes st ! n) + 1"
    using less.prems by (simp add: nodes_bump)
  show ?case
  proof (cases "parent (nodes st ! n)")
    case None
    with wn have "n = 0" by (simp add: wf_node_def)
    with None wfb above vn show ?thesis
      by (subst backpropagate_bump) (simp add: stats_only_bump)
  next
    case (Some p)
    with wn have pn: "p < n" by (simp add: wf_node_def)
    with less.prems have pl: "p < length (nodes ?b)" by simp
    from less.IH [OF pn wfb pl] obtain st' where
      st': "backpropagate ?b p r = Some st'" "wf_store st'" "stats_only ?b st'"
        "completed_rollouts st' = completed_rollouts ?b"
        "\<forall>m. p < m \<longrightarrow> nodes st' ! m = nodes ?b ! m"
        "visits (nodes st' ! 0) = visits (nodes ?b ! 0) + 1"
      by blast
    have cr: "completed_rollouts st' = completed_rollouts st" using st'(4) by simp
    have bp: "backpropagate st n r = Some st'"
      using Some st'(1) by (subst backpropagate_bump) simp
    have root: "visits (nodes st' ! 0) = visits (nodes st ! 0) + 1"
      using st'(6) pn len0 by (simp add: nodes_bump)
    have so: "stats_only st st'"
      using stats_only_bump st'(3) by (rule stats_only_trans)
    have ab: "\<forall>m. n < m \<longrightarrow> nodes st' ! m = nodes st ! m"
      using st'(5) above pn by auto
    have "nodes st' ! n = nodes ?b ! n" using st'(5) pn by simp
    with vn have "visits (nodes st' ! n) = visits (nodes st ! n) + 1" by simp
    with bp st'(2) so ab root cr show ?thesis by simp
  qed
qed

lemma wf_log_rollout:
  assumes "wf_store st" "n < length (nodes st)"
  shows "wf_store (st\<lparr>trace := trace st @ [Rollout n r]\<rparr>)"
  using assms by (simp add: wf_store_def wf_node_def backprop_calls_def)

lemma rollout_post:
  assumes "wf_store st" "n < length (nodes st)"
    and "rollout g st n s rng = Some (st', s', rng')"
  shows "wf_store st' \<and> stats_only st st' \<and>
         completed_rollouts st' = completed_rollouts st + 1 \<and>
         (\<forall>m. n < m \<longrightarrow> nodes st' ! m = nodes st ! m) \<and>
         visits (nodes st' ! 0) = visits (nodes st ! 0) + 1 \<and>
         visits (nodes st' ! n) = visits (nodes st ! n) + 1 \<and>
         rollout_loop g s rng = Some (s', rng')"
proof -
  from assms(3) obtain s1 rng1 where
    loop: "rollout_loop g s rng = Some (s1, rng1)"
    by (auto simp: rollout_def split: option.splits)
  let ?st0 = "st\<lparr>trace := trace st @ [Rollout n (score g s1)]\<rparr>"
  have wf0: "wf_store ?st0" using assms(1,2) by (rule wf_log_rollout)
  have n0: "n < length (nodes ?st0)" using assms(2) by simp
  from backpropagate_total [OF wf0 n0, of "score g s1"] obtain st1 where
    st1: "backpropagate ?st0 n (score g s1) = Some st1" "wf_store st1" "stats_only ?st0 st1"
      "completed_rollouts st1 = completed_rollouts ?st0"
      "\<forall>m. n < m \<longrightarrow> nodes st1 ! m = nodes ?st0 ! m"
      "visits (nodes st1 ! 0) = visits (nodes ?st0 ! 0) + 1"
      "visits (nodes st1 ! n) = visits (nodes ?st0 ! n) + 1"
    by blast
  from assms(3) loop st1(1) have eq: "st' = st1" "s' = s1" "rng' = rng1"
    by (simp_all add: rollout_def)
  have "stats_only st st1" using st1(3) by (simp add: stats_only_def)
  moreover have "completed_rollouts st1 = completed_rollouts st + 1"
    using st1(4) by (simp add: completed_rollouts_def)
  ultimately show ?thesis using st1 eq loop by simp
qed

lemma rollout_total:
  assumes "wf_store st" "n < length (nodes st)" "rollout_loop g s rng = Some (s', rng')"
  shows "\<exists>st'. rollout g st n s rng = Some (st', s', rng')"
proof -
  let ?st0 = "st\<lparr>trace := trace st @ [Rollout n (score g s')]\<rparr>"
  have wf0: "wf_store ?st0" using assms(1,2) by (rule wf_log_rollout)
  have n0: "n < length (nodes ?st0)" using assms(2) by simp
  from backpropagate_total [OF wf0 n0, of "score g s'"] obtain st1 where
    "backpropagate ?st0 n (score g s') = Some st1" by blast
  with assms(3) show ?thesis by (simp add: rollout_def)
qed

lemma set_dict_set: "set (dict_set kvs k v) \<subseteq> insert (k, v) (set kvs)"
  by (induction kvs) (auto split: if_splits)

lemma map_of_dict_set: "map_of (dict_set kvs k v) = (map_of kvs)(k \<mapsto> v)"
  by (induction kvs) auto

lemma dict_set_new: "map_of kvs k = None \<Longrightarrow> dict_set kvs k v = kvs @ [(k, v)]"
  by (induction kvs) (auto split: if_splits)

lemma expand_add_child:
  "expand g st n s cands rng =
     (case choice cands rng of
        Inl e \<Rightarrow> Some (Inl e)
      | Inr (a, rng1) \<Rightarrow>
          (case state_step g s a rng1 of (s', rng2) \<Rightarrow>
             (case rollout g (add_child st n a (key g a)) (length (nodes st)) s' rng2 of
                None \<Rightarrow> None
              | Some r \<Rightarrow> Some (Inr r))))"
  by (simp add: expand_def add_child_def Let_def split: sum.split prod.split)

lemma length_add_child [simp]: "length (nodes (add_child st n a k)) = Suc (length (nodes st))"
  by (simp add: add_child_def)

lemma trace_add_child [simp]: "trace (add_child st n a k) = trace st"
  by (simp add: add_child_def)

lemma nodes_add_child:
  "n < length (nodes st) \<Longrightarrow> m \<le> length (nodes st) \<Longrightarrow>
   nodes (add_child st n a k) ! m =
     (if m = n then (nodes st ! n)\<lparr>children := dict_set (children (nodes st ! n)) k (length (nodes st))\<rparr>
      else if m = length (nodes st) then TreeNode (param (nodes st ! n)) (Some n) (Some a)
      else nodes st ! m)"
  by (auto simp: add_child_def nth_list_update nth_append)

lemma wf_node_add_child:
  assumes "wf_store st" "n < length (nodes st)" "m \<le> length (nodes st)"
  shows "wf_node (add_child st n a k) m"
proof -
  have ev: "\<forall>e \<in> set (trace st). event_node e < length (nodes st)"
    using assms(1) by (simp add: wf_store_def)
  have none: "filter (is_backprop_at (length (nodes st))) (trace st) = []"
  proof -
    have "\<not> is_backprop_at (length (nodes st)) e" if "e \<in> set (trace st)" for e
      using ev that by (cases e) auto
    then show ?thesis by (simp add: filter_empty_conv)
  qed
  show ?thesis
  proof (cases "m = length (nodes st)")
    case True
    then show ?thesis
      using assms(2) none
      by (simp add: wf_node_def nodes_add_child TreeNode_def backprop_calls_def)
  next
    case False
    with assms have ml: "m < length (nodes st)" by simp
    with assms have wm: "wf_node st m" by (simp add: wf_store_def)
    have kids: "\<forall>kc \<in> set (children (nodes st ! m)).
        m < snd kc \<and> snd kc < length (nodes st) \<and> parent (nodes st ! snd kc) = Some m"
      using wm by (simp add: wf_node_def)
    have sub: "set (dict_set (children (nodes st ! n)) k (length (nodes st)))
                 \<subseteq> insert (k, length (nodes st)) (set (children (nodes st ! n)))"
      by (rule set_dict_set)
    have par: "parent (nodes (add_child st n a k) ! c) = parent (nodes st ! c)"
      if "c < length (nodes st)" for c
      using that assms(2) by (simp add: nodes_add_child)
    show ?thesis
    proof (cases "m = n")
      case True
      have "\<forall>kc \<in> set (children (nodes (add_child st n a k) ! n)).
              n < snd kc \<and> snd kc < length (nodes (add_child st n a k)) \<and>
              parent (nodes (add_child st n a k) ! snd kc) = Some n"
      proof
        fix kc assume "kc \<in> set (children (nodes (add_child st n a k) ! n))"
        then have "kc \<in> insert (k, length (nodes st)) (set (children (nodes st ! n)))"
          using sub assms(2) by (auto simp: nodes_add_child)
        then show "n < snd kc \<and> snd kc < length (nodes (add_child st n a k)) \<and>
              parent (nodes (add_child st n a k) ! snd kc) = Some n"
        proof
          assume "kc = (k, length (nodes st))"
          then show ?thesis using assms(2) by (simp add: nodes_add_child TreeNode_def)
        next
          assume "kc \<in> set (children (nodes st ! n))"
          with kids True have "n < snd kc" "snd kc < length (nodes st)"
            "parent (nodes st ! snd kc) = Some n" by auto
          then show ?thesis using par by simp
        qed
      qed
      then show ?thesis
        using wm True assms(2) by (simp add: wf_node_def nodes_add_child backprop_calls_def)
    next
      case False
      have "\<forall>kc \<in> set (children (nodes st ! m)).
              m < snd kc \<and> snd kc < length (nodes (add_child st n a k)) \<and>
              parent (nodes (add_child st n a k) ! snd kc) = Some m"
        using kids par by auto
      then show ?thesis
        using wm False ml assms(2) by (simp add: wf_node_def nodes_add_child backprop_calls_def)
    qed
  qed
qed

lemma wf_add_child:
  assumes "wf_store st" "n < length (nodes st)"
  shows "wf_store (add_child st n a k)"
proof -
  have "\<forall>m < length (nodes (add_child st n a k)). wf_node (add_child st n a k) m"
    using wf_node_add_child [OF assms] by (simp add: less_Suc_eq_le)
  moreover have "\<forall>e \<in> set (trace (add_child st n a k)).
                   event_node e < length (nodes (add_child st n a k))"
    using assms(1) by (auto simp: wf_store_def less_Suc_eq)
  moreover have "nodes (add_child st n a k) \<noteq> []"
    by (simp add: add_child_def)
  ultimately show ?thesis by (simp add: wf_store_def)
qed

lemma keeps_refl: "keeps st st"
  by (simp add: keeps_def)

lemma keeps_trans: "keeps a b \<Longrightarrow> keeps b c \<Longrightarrow> keeps a c"
  unfolding keeps_def by (auto, metis append.assoc less_le_trans)

lemma stats_only_keeps: "stats_only st st' \<Longrightarrow> keeps st st'"
  by (simp add: stats_only_def keeps_def)

lemma keeps_add_child: "n < length (nodes st) \<Longrightarrow> keeps st (add_child st n a k)"
  by (simp add: keeps_def nodes_add_child)

lemma expand_post:
  assumes "wf_store st" "n < length (nodes st)"
    and "expand g st n s cands rng = Some (Inr (st', s', rng'))"
  shows "wf_store st' \<and> keeps st st' \<and>
         length (nodes st') = Suc (length (nodes st)) \<and>
         completed_rollouts st' = completed_rollouts st + 1 \<and>
         visits (nodes st' ! 0) = visits (nodes st ! 0) + 1 \<and>
         (\<forall>m < length (nodes st). m \<noteq> n \<longrightarrow>
            children (nodes st' ! m) = children (nodes st ! m)) \<and>
         (\<exists>a \<in> set cands.
            children (nodes st' ! n) =
              dict_set (children (nodes st ! n)) (key g a) (length (nodes st)) \<and>
            action (nodes st' ! length (nodes st)) = Some a) \<and>
         parent (nodes st' ! length (nodes st)) = Some n \<and>
         children (nodes st' ! length (nodes st)) = [] \<and>
         visits (nodes st' ! length (nodes st)) = 1"
proof -
  from assms(3) obtain a rng1 s1 rng2 where
    ch: "choice cands rng = Inr (a, rng1)" and
    ss: "state_step g s a rng1 = (s1, rng2)" and
    ro: "rollout g (add_child st n a (key g a)) (length (nodes st)) s1 rng2 = Some (st', s', rng')"
    by (auto simp: expand_add_child split: sum.splits prod.splits option.splits)
  let ?c = "length (nodes st)"
  let ?st1 = "add_child st n a (key g a)"
  have amem: "a \<in> set cands"
    using ch by (auto simp: choice_def pick_def split: if_splits list.splits)
  have wf1: "wf_store ?st1" using assms(1,2) by (rule wf_add_child)
  have c1: "?c < length (nodes ?st1)" by simp
  from rollout_post [OF wf1 c1 ro] have
    p: "wf_store st'" "stats_only ?st1 st'"
       "completed_rollouts st' = completed_rollouts ?st1 + 1"
       "visits (nodes st' ! 0) = visits (nodes ?st1 ! 0) + 1"
       "visits (nodes st' ! ?c) = visits (nodes ?st1 ! ?c) + 1"
    by simp_all
  have len: "length (nodes st') = Suc ?c" using p(2) by (simp add: stats_only_def)
  have k: "keeps st st'"
    using keeps_add_child [OF assms(2)] stats_only_keeps [OF p(2)] by (rule keeps_trans)
  have cr: "completed_rollouts st' = completed_rollouts st + 1"
    using p(3) by (simp add: completed_rollouts_def)
  have l0: "0 < length (nodes st)" using assms(2) by auto
  have root: "visits (nodes st' ! 0) = visits (nodes st ! 0) + 1"
    using p(4) assms(2) l0 by (simp add: nodes_add_child)
  have same: "\<forall>m \<le> ?c. children (nodes st' ! m) = children (nodes ?st1 ! m) \<and>
                 parent (nodes st' ! m) = parent (nodes ?st1 ! m) \<and>
                 action (nodes st' ! m) = action (nodes ?st1 ! m)"
    using p(2) by (simp add: stats_only_def less_Suc_eq_le)
  have others: "\<forall>m < ?c. m \<noteq> n \<longrightarrow> children (nodes st' ! m) = children (nodes st ! m)"
    using same assms(2) by (simp add: nodes_add_child)
  have atn: "children (nodes st' ! n) = dict_set (children (nodes st ! n)) (key g a) ?c"
    using same assms(2) by (simp add: nodes_add_child)
  have new: "action (nodes st' ! ?c) = Some a" "parent (nodes st' ! ?c) = Some n"
    "children (nodes st' ! ?c) = []"
    using same assms(2) by (simp_all add: nodes_add_child TreeNode_def)
  have v: "visits (nodes st' ! ?c) = 1"
    using p(5) assms(2) by (simp add: nodes_add_child TreeNode_def)
  from p(1) k len cr root others atn new v amem show ?thesis by blast
qed

lemma pick_mem: "xs \<noteq> [] \<Longrightarrow> fst (pick xs rng) \<in> set xs"
  by (auto simp: pick_def split: list.splits)

lemma step_rel_refl: "wf_store st \<Longrightarrow> step_rel st n st"
  by (simp add: step_rel_def keeps_refl entries_kept_def)

lemma entries_kept_expand:
  assumes "wf_store st" "n < length (nodes st)"
    and "expand g st n s cands rng = Some (Inr (st', s', rng'))"
    and "\<forall>a \<in> set cands. map_of (children (nodes st ! n)) (key g a) = None"
  shows "entries_kept st st'"
proof -
  from expand_post [OF assms(1-3)] obtain a where
    a: "a \<in> set cands" and
    atn: "children (nodes st' ! n) =
            dict_set (children (nodes st ! n)) (key g a) (length (nodes st))" and
    others: "\<forall>m < length (nodes st). m \<noteq> n \<longrightarrow>
               children (nodes st' ! m) = children (nodes st ! m)"
    by blast
  from a assms(4) have new: "map_of (children (nodes st ! n)) (key g a) = None" by simp
  have "map_of (children (nodes st' ! m)) k = Some c"
    if "m < length (nodes st)" "map_of (children (nodes st ! m)) k = Some c" for m k c
  proof (cases "m = n")
    case True
    with that(2) new have "k \<noteq> key g a" by auto
    with that(2) True show ?thesis by (simp add: atn map_of_dict_set)
  next
    case False
    with that others show ?thesis by simp
  qed
  then show ?thesis by (simp add: entries_kept_def)
qed

lemma step_rel_expand:
  assumes "wf_store st" "n < length (nodes st)"
    and "expand g st n s cands rng = Some (Inr (st', s', rng'))"
    and "\<forall>a \<in> set cands. map_of (children (nodes st ! n)) (key g a) = None"
  shows "step_rel st n st'"
  using expand_post [OF assms(1-3)] entries_kept_expand [OF assms] assms(2)
  by (auto simp: step_rel_def)

lemma step_rel_up: "step_rel st c st' \<Longrightarrow> n \<le> c \<Longrightarrow> step_rel st n st'"
  by (simp add: step_rel_def)

lemma step_post_aux:
  assumes "step g st n s rng = Some y"
  shows "wf_store st \<longrightarrow> n < length (nodes st) \<longrightarrow>
         (\<forall>st' s' rng'. y = Inr (st', s', rng') \<longrightarrow> step_rel st n st')"
proof (rule step.raw_induct
    [where P = "\<lambda>g st n s rng y. wf_store st \<longrightarrow> n < length (nodes st) \<longrightarrow>
         (\<forall>st' s' rng'. y = Inr (st', s', rng') \<longrightarrow> step_rel st n st')", OF _ assms],
    goal_cases)
  case (1 step g st n s rng y)
  show ?case
  proof (intro impI allI)
    fix st' s' rng'
    assume wf: "wf_store st" and n: "n < length (nodes st)" and y: "y = Inr (st', s', rng')"
    show "step_rel st n st'"
    proof (cases "get_actions g s = []")
      case True
      with 1(2) y have "st' = st" by simp
      with wf show ?thesis by (simp add: step_rel_refl)
    next
      case False
      let ?un = "filter (\<lambda>a. map_of (children (nodes st ! n)) (key g a) = None) (get_actions g s)"
      show ?thesis
      proof (cases "?un = []")
        case un: False
        with False 1(2) y have "expand g st n s ?un rng = Some (Inr (st', s', rng'))"
          by (simp add: Let_def)
        with wf n show ?thesis by (rule step_rel_expand) simp
      next
        case un: True
        obtain a rng1 where pk: "pick (get_actions g s) rng = (a, rng1)" by force
        obtain s1 rng2 where ss: "state_step g s a rng1 = (s1, rng2)" by force
        show ?thesis
        proof (cases "map_of (children (nodes st ! n)) (key g a)")
          case None
          with False un pk ss 1(2) y have "st' = st" by (simp add: Let_def)
          with wf show ?thesis by (simp add: step_rel_refl)
        next
          case (Some c)
          with False un pk ss 1(2) y have rec: "step g st c s1 rng2 = Some (Inr (st', s', rng'))"
            by (simp add: Let_def)
          have "(key g a, c) \<in> set (children (nodes st ! n))"
            using Some by (rule map_of_SomeD)
          moreover have "wf_node st n" using wf n by (simp add: wf_store_def)
          ultimately have c: "n < c" "c < length (nodes st)"
            by (auto simp: wf_node_def)
          from 1(1) [OF rec] wf c(2) have "step_rel st c st'" by simp
          then show ?thesis using c(1) by (simp add: step_rel_up)
        qed
      qed
    qed
  qed
qed

lemma step_post:
  assumes "step g st n s rng = Some (Inr (st', s', rng'))"
    and "wf_store st" "n < length (nodes st)"
  shows "step_rel st n st'"
  using step_post_aux [OF assms(1)] assms(2,3) by simp

text \<open>
  \<^verbatim>\<open>step\<close> only adds: every node is kept with its links and its outcomes as a
  prefix, and every entry of every \<^verbatim>\<open>children\<close> dict is kept.
\<close>

lemma step_append_only:
  assumes "step g st n s rng = Some (Inr (st', s', rng'))"
    and "wf_store st" "n < length (nodes st)"
  shows "keeps st st' \<and> entries_kept st st'"
  using step_post [OF assms] by (simp add: step_rel_def)

lemma max_from_mem: "max_from gt f b xs \<in> insert b (set xs)"
  by (induction xs arbitrary: b) auto

lemma max_key_Nil: "max_key gt f [] = Inl ValueError"
  by (simp add: max_key_def)

lemma max_key_Cons: "xs \<noteq> [] \<Longrightarrow> \<exists>x \<in> set xs. max_key gt f xs = Inr x"
proof (cases xs)
  case Nil
  assume "xs \<noteq> []"
  with Nil show ?thesis by simp
next
  case (Cons x xs')
  have "max_from gt f x xs' \<in> set xs" using max_from_mem [of gt f x xs'] Cons by simp
  then show ?thesis using Cons by (simp add: max_key_def)
qed

lemma select_post_aux:
  assumes "select ar g st n s rng = Some y"
  shows "wf_store st \<longrightarrow> n < length (nodes st) \<longrightarrow>
         (\<forall>st' s' rng'. y = Inr (st', s', rng') \<longrightarrow> wf_store st' \<and> keeps st st')"
proof (rule select.raw_induct
    [where P = "\<lambda>ar g st n s rng y. wf_store st \<longrightarrow> n < length (nodes st) \<longrightarrow>
         (\<forall>st' s' rng'. y = Inr (st', s', rng') \<longrightarrow> wf_store st' \<and> keeps st st')", OF _ assms],
    goal_cases)
  case (1 select ar g st n s rng y)
  show ?case
  proof (intro impI allI)
    fix st' s' rng'
    assume wf: "wf_store st" and n: "n < length (nodes st)" and y: "y = Inr (st', s', rng')"
    show "wf_store st' \<and> keeps st st'"
    proof (cases "length (children (nodes st ! n)) < length (get_actions g s)")
      case True
      with 1(2) y have "expand g st n s (get_actions g s) rng = Some (Inr (st', s', rng'))"
        by (simp add: Let_def)
      from expand_post [OF wf n this] show ?thesis by simp
    next
      case False
      with 1(2) y obtain item where
        mk: "max_key (fgt ar) (\<lambda>item. ucb ar st n (snd item)) (children (nodes st ! n)) = Inr item"
        by (auto simp: Let_def split: sum.splits)
      obtain s1 rng1 where ap: "apply_action g s (fst item) rng = (s1, rng1)" by force
      from False 1(2) y mk ap obtain c where
        c: "map_of (children (nodes st ! n)) (fst item) = Some c" and
        rec: "select ar g st c s1 rng1 = Some (Inr (st', s', rng'))"
        by (auto simp: Let_def split: option.splits)
      have "(fst item, c) \<in> set (children (nodes st ! n))"
        using c by (rule map_of_SomeD)
      moreover have "wf_node st n" using wf n by (simp add: wf_store_def)
      ultimately have "c < length (nodes st)" by (auto simp: wf_node_def)
      with 1(1) [OF rec] wf show ?thesis by simp
    qed
  qed
qed

lemma select_post:
  assumes "select ar g st n s rng = Some (Inr (st', s', rng'))"
    and "wf_store st" "n < length (nodes st)"
  shows "wf_store st' \<and> keeps st st'"
  using select_post_aux [OF assms(1)] assms(2,3) by simp

lemma reachable_wf: "reachable g st \<Longrightarrow> wf_store st"
proof (induction rule: reachable.induct)
  case (fresh p)
  show ?case by (rule wf_fresh_tree)
next
  case (by_step st n s rng st' s' rng')
  from step_post [OF by_step(3) by_step.IH by_step(2)] show ?case by (simp add: step_rel_def)
next
  case (by_expand st n s cands rng st' s' rng')
  from expand_post [OF by_expand.IH by_expand(2,3)] show ?case by simp
next
  case (by_rollout st n s rng st' s' rng')
  from rollout_post [OF by_rollout.IH by_rollout(2,3)] show ?case by simp
next
  case (by_backpropagate st n r st')
  from backpropagate_total [OF by_backpropagate.IH by_backpropagate(2), of r] by_backpropagate(3)
  show ?case by auto
next
  case (by_select st n ar s rng st' s' rng')
  from select_post [OF by_select(3) by_select.IH by_select(2)] show ?case by simp
qed

lemma iterate_post:
  assumes "iterate g N t bs rng = Some (Inr (t', rng'))" "wf_store t"
  shows "wf_store t' \<and>
         visits (nodes t' ! 0) + completed_rollouts t = visits (nodes t ! 0) + completed_rollouts t' \<and>
         completed_rollouts t' \<le> completed_rollouts t + N"
  using assms
proof (induction N arbitrary: t rng)
  case 0
  then show ?case by simp
next
  case (Suc N)
  obtain sample rng1 where cp: "copy_undeterministic g bs rng = (sample, rng1)" by force
  from Suc.prems(1) cp obtain t1 s1 rng2 where
    st: "step g t 0 sample rng1 = Some (Inr (t1, s1, rng2))" and
    it: "iterate g N t1 bs rng2 = Some (Inr (t', rng'))"
    by (auto split: option.splits sum.splits)
  have "0 < length (nodes t)" using Suc.prems(2) by (simp add: wf_store_def)
  from step_post [OF st Suc.prems(2) this] have
    r: "wf_store t1"
       "visits (nodes t1 ! 0) + completed_rollouts t = visits (nodes t ! 0) + completed_rollouts t1"
       "completed_rollouts t1 \<le> completed_rollouts t + 1"
    by (simp_all add: step_rel_def)
  from Suc.IH [OF it r(1)] r(2,3) show ?case by simp
qed

subsection \<open>\<^verbatim>\<open>get_best\<close>, \<^verbatim>\<open>select\<close> and \<^verbatim>\<open>step\<close> unfolded\<close>

lemma get_best_loop_spec:
  assumes irrefl: "\<And>x. \<not> fgt ar x x"
    and trans: "\<And>x y z. fgt ar x y \<Longrightarrow> fgt ar y z \<Longrightarrow> fgt ar x z"
    and inv: "\<And>b. best = Some b \<Longrightarrow> best_avg = avg ar st b \<and> 0 < visits (nodes st ! b)"
  shows "case get_best_loop ar st cs best best_avg of
           None \<Rightarrow> best = None \<and>
             (\<forall>c \<in> set cs. 0 < visits (nodes st ! c) \<longrightarrow> \<not> fgt ar (avg ar st c) best_avg)
         | Some r \<Rightarrow>
             (Some r = best \<or> r \<in> set cs \<and> fgt ar (avg ar st r) best_avg) \<and>
             0 < visits (nodes st ! r) \<and>
             (\<forall>c \<in> set cs. 0 < visits (nodes st ! c) \<longrightarrow>
                \<not> fgt ar (avg ar st c) (avg ar st r))"
  using inv
proof (induction cs arbitrary: best best_avg)
  case Nil
  then show ?case by (cases best) simp_all
next
  case (Cons c cs)
  show ?case
  proof (cases "0 < visits (nodes st ! c) \<and> fgt ar (avg ar st c) best_avg")
    case False
    then have eq: "get_best_loop ar st (c # cs) best best_avg = get_best_loop ar st cs best best_avg"
      by auto
    have new: "0 < visits (nodes st ! c) \<longrightarrow> \<not> fgt ar (avg ar st c) best_avg"
      using False by auto
    show ?thesis
    proof (cases "get_best_loop ar st cs best best_avg")
      case None
      with Cons.IH [of best best_avg, OF Cons.prems] new eq show ?thesis by simp
    next
      case (Some r)
      with Cons.IH [of best best_avg, OF Cons.prems] have
        r: "Some r = best \<or> r \<in> set cs \<and> fgt ar (avg ar st r) best_avg"
           "0 < visits (nodes st ! r)"
           "\<forall>c \<in> set cs. 0 < visits (nodes st ! c) \<longrightarrow> \<not> fgt ar (avg ar st c) (avg ar st r)"
        by simp_all
      have "\<not> fgt ar (avg ar st c) (avg ar st r)" if v: "0 < visits (nodes st ! c)"
      proof
        assume g: "fgt ar (avg ar st c) (avg ar st r)"
        from new v have n: "\<not> fgt ar (avg ar st c) best_avg" by simp
        from r(1) show False
        proof
          assume "Some r = best"
          then have "best_avg = avg ar st r" using Cons.prems [of r] by simp
          with g n show False by simp
        next
          assume "r \<in> set cs \<and> fgt ar (avg ar st r) best_avg"
          with g have "fgt ar (avg ar st c) best_avg" by (blast intro: trans)
          with n show False ..
        qed
      qed
      with r Some eq show ?thesis by auto
    qed
  next
    case True
    then have eq: "get_best_loop ar st (c # cs) best best_avg
                    = get_best_loop ar st cs (Some c) (avg ar st c)"
      by simp
    have inv': "Some c = Some b \<Longrightarrow> avg ar st c = avg ar st b \<and> 0 < visits (nodes st ! b)" for b
      using True by simp
    show ?thesis
    proof (cases "get_best_loop ar st cs (Some c) (avg ar st c)")
      case None
      with Cons.IH [of "Some c" "avg ar st c", OF inv'] show ?thesis by simp
    next
      case (Some r)
      with Cons.IH [of "Some c" "avg ar st c", OF inv'] have
        r: "r = c \<or> r \<in> set cs \<and> fgt ar (avg ar st r) (avg ar st c)"
           "0 < visits (nodes st ! r)"
           "\<forall>c \<in> set cs. 0 < visits (nodes st ! c) \<longrightarrow> \<not> fgt ar (avg ar st c) (avg ar st r)"
        by auto
      have a: "r \<in> set (c # cs) \<and> fgt ar (avg ar st r) best_avg"
        using r(1) True by (auto intro: trans)
      have b: "\<not> fgt ar (avg ar st c) (avg ar st r)"
        using r(1) irrefl trans by blast
      from a b r(2,3) Some eq show ?thesis by simp
    qed
  qed
qed

lemma pick_any: "a \<in> set xs \<Longrightarrow> \<exists>r. fst (pick xs (r # rng)) = a"
proof -
  assume "a \<in> set xs"
  then obtain i where "i < length xs" "xs ! i = a" by (auto simp: in_set_conv_nth)
  then have "fst (pick xs (i # rng)) = a" by (simp add: pick_def)
  then show ?thesis ..
qed

lemma avg_node_stats: "node_stats st c = node_stats st' c' \<Longrightarrow> avg ar st c = avg ar st' c'"
  by (simp add: node_stats_def avg_def)

lemma get_best_loop_stats:
  assumes "map (node_stats st) cs = map (node_stats st') cs'"
    and "map_option (node_stats st) best = map_option (node_stats st') best'"
  shows "map_option (node_stats st) (get_best_loop ar st cs best best_avg)
         = map_option (node_stats st') (get_best_loop ar st' cs' best' best_avg)"
  using assms
proof (induction cs arbitrary: cs' best best' best_avg)
  case Nil
  then show ?case by simp
next
  case (Cons c cs)
  from Cons.prems(1) obtain c' cs1 where
    cs': "cs' = c' # cs1" and c: "node_stats st c = node_stats st' c'"
    and rest: "map (node_stats st) cs = map (node_stats st') cs1"
    by (cases cs') auto
  have v: "visits (nodes st ! c) = visits (nodes st' ! c')"
    using c by (simp add: node_stats_def)
  have a: "avg ar st c = avg ar st' c'" using c by (rule avg_node_stats)
  have new: "map_option (node_stats st) (Some c) = map_option (node_stats st') (Some c')"
    using c by simp
  show ?case
    using Cons.IH [OF rest Cons.prems(2)] Cons.IH [OF rest new] v a
    by (simp add: cs')
qed

lemma select_expands:
  "length (children (nodes st ! n)) < length (get_actions g s) \<Longrightarrow>
   select ar g st n s rng = expand g st n s (get_actions g s) rng"
  by (subst select.simps) (simp add: Let_def)

lemma select_raises:
  "\<not> length (children (nodes st ! n)) < length (get_actions g s) \<Longrightarrow>
   children (nodes st ! n) = [] \<Longrightarrow> select ar g st n s rng = Some (Inl ValueError)"
  by (subst select.simps) (simp add: Let_def max_key_Nil)

lemma select_descends:
  assumes "\<not> length (children (nodes st ! n)) < length (get_actions g s)"
    and "children (nodes st ! n) \<noteq> []"
  shows "\<exists>item \<in> set (children (nodes st ! n)). \<exists>c.
           map_of (children (nodes st ! n)) (fst item) = Some c \<and>
           (fst item, c) \<in> set (children (nodes st ! n)) \<and>
           select ar g st n s rng =
             (case apply_action g s (fst item) rng of (s', rng1) \<Rightarrow> select ar g st c s' rng1)"
proof -
  from max_key_Cons [OF assms(2), of "fgt ar" "\<lambda>item. ucb ar st n (snd item)"] obtain item where
    item: "item \<in> set (children (nodes st ! n))"
      "max_key (fgt ar) (\<lambda>item. ucb ar st n (snd item)) (children (nodes st ! n)) = Inr item"
    by blast
  from item(1) have "fst item \<in> fst ` set (children (nodes st ! n))" by simp
  then have "map_of (children (nodes st ! n)) (fst item) \<noteq> None"
    by (simp add: map_of_eq_None_iff)
  then obtain c where c: "map_of (children (nodes st ! n)) (fst item) = Some c"
    by blast
  have "select ar g st n s rng =
          (case apply_action g s (fst item) rng of (s', rng1) \<Rightarrow> select ar g st c s' rng1)"
    using assms(1) item(2) c by (subst select.simps) (simp add: Let_def)
  with item c map_of_SomeD [OF c] show ?thesis by blast
qed

lemma step_no_actions: "get_actions g s = [] \<Longrightarrow> step g st n s rng = Some (Inr (st, s, rng))"
  by (subst step.simps) simp

lemma step_descends:
  assumes "get_actions g s \<noteq> []"
    and "\<forall>a \<in> set (get_actions g s). map_of (children (nodes st ! n)) (key g a) \<noteq> None"
  shows "\<exists>a \<in> set (get_actions g s). \<exists>c rng1.
           pick (get_actions g s) rng = (a, rng1) \<and>
           map_of (children (nodes st ! n)) (key g a) = Some c \<and>
           step g st n s rng =
             (case state_step g s a rng1 of (s', rng2) \<Rightarrow> step g st c s' rng2)"
proof -
  obtain a rng1 where pk: "pick (get_actions g s) rng = (a, rng1)" by force
  have a: "a \<in> set (get_actions g s)" using pick_mem [OF assms(1), of rng] pk by simp
  with assms(2) obtain c where c: "map_of (children (nodes st ! n)) (key g a) = Some c"
    by blast
  have un: "filter (\<lambda>a. map_of (children (nodes st ! n)) (key g a) = None) (get_actions g s) = []"
    using assms(2) by (simp add: filter_empty_conv)
  have "step g st n s rng =
             (case state_step g s a rng1 of (s', rng2) \<Rightarrow> step g st c s' rng2)"
    using assms(1) un pk c by (subst step.simps) (simp add: Let_def split: prod.splits)
  with a pk c show ?thesis by blast
qed

lemma backpropagate_root:
  "parent (nodes st ! 0) = None \<Longrightarrow> backpropagate st 0 r = Some (bump st 0 r)"
  by (subst backpropagate_bump) simp

lemma backpropagate_child_of_root:
  assumes "parent (nodes st ! c) = Some 0" "parent (nodes st ! 0) = None"
    "0 < c" "c < length (nodes st)"
  shows "backpropagate st c r = Some (bump (bump st c r) 0 r)"
proof -
  have "0 < length (nodes st)" using assms(3,4) by linarith
  then have "parent (nodes (bump st c r) ! 0) = None" using assms(2) by simp
  then have "backpropagate (bump st c r) 0 r = Some (bump (bump st c r) 0 r)"
    by (rule backpropagate_root)
  with assms(1) show ?thesis by (subst backpropagate_bump) simp
qed

lemma expand_root_frame:
  assumes "wf_store st"
    and "expand g st 0 s cands rng = Some (Inr (st', s', rng'))"
    and "0 < m" "m < length (nodes st)"
  shows "nodes st' ! m = nodes st ! m"
proof -
  have l0: "0 < length (nodes st)" using assms(1) by (simp add: wf_store_def)
  from assms(2) obtain a s1 rng2 where
    ro: "rollout g (add_child st 0 a (key g a)) (length (nodes st)) s1 rng2 = Some (st', s', rng')"
    by (auto simp: expand_add_child split: sum.splits prod.splits option.splits)
  let ?c = "length (nodes st)"
  let ?st1 = "add_child st 0 a (key g a)"
  from ro obtain s2 where
    bp: "backpropagate (?st1\<lparr>trace := trace ?st1 @ [Rollout ?c (score g s2)]\<rparr>) ?c (score g s2)
          = Some st'"
    by (auto simp: rollout_def split: option.splits)
  let ?st2 = "?st1\<lparr>trace := trace ?st1 @ [Rollout ?c (score g s2)]\<rparr>"
  have "wf_node st 0" using assms(1) l0 by (simp add: wf_store_def)
  then have p0: "parent (nodes st ! 0) = None"
    by (cases "parent (nodes st ! 0)") (auto simp: wf_node_def)
  have a: "parent (nodes ?st2 ! ?c) = Some 0" using l0 by (simp add: nodes_add_child TreeNode_def)
  have b: "parent (nodes ?st2 ! 0) = None" using l0 p0 by (simp add: nodes_add_child)
  have c: "?c < length (nodes ?st2)" by simp
  from backpropagate_child_of_root [OF a b l0 c, of "score g s2"] bp
  have st': "st' = bump (bump ?st2 ?c (score g s2)) 0 (score g s2)" by simp
  show ?thesis
    using assms(3,4) l0 by (simp add: st' nodes_bump nodes_add_child)
qed

lemma step_expands:
  assumes "get_actions g s \<noteq> []"
    and "filter (\<lambda>a. map_of (children (nodes st ! n)) (key g a) = None) (get_actions g s) = un"
    and "un \<noteq> []"
  shows "step g st n s rng = expand g st n s un rng"
  using assms by (subst step.simps) (simp add: Let_def)

subsection \<open>Runs of the small game\<close>

lemmas run_simps = sum_game_def fresh_tree_def TreeNode_def expand_def rollout_def
  choice_def pick_def Let_def

lemma step_sum_fresh:
  "step sum_game (fresh_tree (Finite (1 / 2))) 0 (1, 0) [0] = Some (Inr (tree1, (0, 10), []))"
  by (simp add: step.simps rollout_loop.simps backpropagate.simps run_simps tree1_def)

lemma step_sum_tree1:
  "step sum_game tree1 0 (1, 0) [] = Some (Inr (tree2, (0, 20), []))"
  by (simp add: step.simps rollout_loop.simps backpropagate.simps run_simps tree1_def tree2_def)

lemma iterate_sum:
  "iterate sum_game 2 (fresh_tree (Finite (1 / 2))) (1, 0) [0] = Some (Inr (tree2, []))"
proof -
  have "iterate sum_game (Suc (Suc 0)) (fresh_tree (Finite (1 / 2))) (1, 0) [0] = Some (Inr (tree2, []))"
    using step_sum_fresh step_sum_tree1 by (simp add: sum_game_def)
  then show ?thesis by (simp add: numeral_2_eq_2)
qed



lemma reachable_tree2: "reachable sum_game tree2"
proof -
  have "reachable sum_game (fresh_tree (Finite (1 / 2)) :: (nat, nat, float64) store)"
    by (rule reachable.fresh)
  moreover have "0 < length (nodes (fresh_tree (Finite (1 / 2)) :: (nat, nat, float64) store))"
    by (simp add: fresh_tree_def)
  ultimately have "reachable sum_game tree1"
    using step_sum_fresh by (rule reachable.by_step)
  moreover have "0 < length (nodes tree1)" by (simp add: tree1_def)
  ultimately show ?thesis using step_sum_tree1 by (rule reachable.by_step)
qed

subsection \<open>Rounding\<close>

lemma gt64_irrefl: "\<not> gt64 x x"
  by (cases x) simp_all

lemma gt64_trans: "gt64 x y \<Longrightarrow> gt64 y z \<Longrightarrow> gt64 x z"
  by (cases x; cases y; cases z) simp_all

lemma ulp64_between:
  assumes "2 powr of_int k \<le> \<bar>x\<bar>" "\<bar>x\<bar> < 2 powr of_int (k + 1)" "- 1022 \<le> k"
  shows "ulp64 x = 2 powr (of_int k - 52)"
proof -
  have "0 < \<bar>x\<bar>" using assms(1) by (smt (verit) powr_gt_zero)
  then have "\<lfloor>log 2 \<bar>x\<bar>\<rfloor> = k"
    using assms(1,2) by (simp add: floor_log_eq_powr_iff)
  with assms(3) show ?thesis by (simp add: ulp64_def max_def)
qed

lemma round_even_exact:
  assumes "x / u = of_int m"
  shows "round_even u x = of_int m * u"
  using assms by (simp add: round_even_def)

lemma round_even_tie:
  assumes "x / u = of_int m + 1 / 2" "even m"
  shows "round_even u x = of_int m * u"
proof -
  have "\<lfloor>x / u\<rfloor> = m" using assms(1) by (simp add: floor_unique)
  with assms show ?thesis by (simp add: round_even_def)
qed

text \<open>A number on the grid is not changed; one halfway goes to the even neighbour.\<close>

lemma round64_grid:
  assumes "2 powr of_int k \<le> \<bar>x\<bar>" "\<bar>x\<bar> < 2 powr of_int (k + 1)" "- 1022 \<le> k" "k \<le> 1023"
    and "x / 2 powr (of_int k - 52) = of_int m"
  shows "round64 x = Finite x"
proof -
  have u: "ulp64 x = 2 powr (of_int k - 52)" using assms(1-3) by (rule ulp64_between)
  have "0 < \<bar>x\<bar>" using assms(1) by (smt (verit) powr_gt_zero)
  then have nz: "x \<noteq> 0" by simp
  have "round_even (ulp64 x) x = of_int m * 2 powr (of_int k - 52)"
    unfolding u using assms(5) by (rule round_even_exact)
  also have "\<dots> = x" using assms(5) by (simp add: field_simps)
  finally have r: "round_even (ulp64 x) x = x" .
  have "2 powr of_int (k + 1) \<le> (2::real) powr of_int 1024"
    using assms(4) by (intro powr_mono) simp_all
  also have "(2::real) powr of_int 1024 = 2 ^ 1024"
    using powr_realpow [of "2::real" 1024] by simp
  finally have "\<bar>x\<bar> < 2 ^ 1024" using assms(2) by simp
  with r nz show ?thesis by (simp add: round64_def)
qed

lemma round64_tie:
  assumes "2 powr of_int k \<le> \<bar>x\<bar>" "\<bar>x\<bar> < 2 powr of_int (k + 1)" "- 1022 \<le> k"
    and "x / 2 powr (of_int k - 52) = of_int m + 1 / 2" "even m"
    and "y = of_int m * 2 powr (of_int k - 52)" "\<bar>y\<bar> < 2 ^ 1024"
  shows "round64 x = Finite y"
proof -
  have u: "ulp64 x = 2 powr (of_int k - 52)" using assms(1-3) by (rule ulp64_between)
  have "0 < \<bar>x\<bar>" using assms(1) by (smt (verit) powr_gt_zero)
  then have nz: "x \<noteq> 0" by simp
  have "round_even (ulp64 x) x = y"
    unfolding u assms(6) using assms(4,5) by (rule round_even_tie)
  with nz assms(7) show ?thesis by (simp add: round64_def)
qed

lemma round64_10: "round64 10 = Finite 10"
  by (rule round64_grid [where k = 3 and m = "10 * 2 ^ 49"])
    (simp_all add: powr_realpow powr_minus field_simps)

lemma round64_20: "round64 20 = Finite 20"
  by (rule round64_grid [where k = 4 and m = "20 * 2 ^ 48"])
    (simp_all add: powr_realpow powr_minus field_simps)

lemma round64_5e15: "round64 5000000000000000 = Finite 5000000000000000"
  by (rule round64_grid [where k = 52 and m = 5000000000000000])
    (simp_all add: powr_realpow)

lemma round64_1e16: "round64 10000000000000000 = Finite 10000000000000000"
  by (rule round64_grid [where k = 53 and m = 5000000000000000])
    (simp_all add: powr_realpow)

lemma round64_1e16_plus_1: "round64 10000000000000001 = Finite 10000000000000000"
  by (rule round64_tie [where k = 53 and m = 5000000000000000])
    (simp_all add: powr_realpow)

text \<open>The averages that \<^verbatim>\<open>get_best\<close> computes in the trees above.\<close>

lemma avg_tree2:
  "avg binary64 tree2 1 = Finite 10" "avg binary64 tree2 2 = Finite 20"
  by (simp_all add: avg_def binary64_def tree2_def sum64_def round64_10 round64_20)

lemma avg_tree_tie:
  "avg binary64 tree_tie 1 = Finite 5000000000000000"
  "avg binary64 tree_tie 2 = Finite 5000000000000000"
  by (simp_all add: avg_def binary64_def tree_tie_def sum64_def round64_5e15 round64_1e16
      round64_1e16_plus_1)

lemma avg_tree_neg_inf:
  "avg binary64 tree_neg_inf 1 = NegInf" "avg binary64 tree_neg_inf 2 = NaN"
  by (simp_all add: avg_def binary64_def tree_neg_inf_def sum64_def)

section \<open>The claims\<close>

text \<open>
  Claim C1, as amended. The average of a child is what the float arithmetic gives for
  \<^verbatim>\<open>sum(child.results) / child.visits\<close>, and one average exceeds another when \<^verbatim>\<open>>\<close>
  says so; \<^verbatim>\<open>>\<close> is irreflexive and transitive, as it is on floats. When the node has
  at least one child and the average of some visited child exceeds minus infinity,
  \<^verbatim>\<open>get_best\<close> returns the incoming action of a visited child whose average the
  average of no visited child exceeds; a child with no visit is never chosen, whatever
  its outcomes are; and when no child has been visited the result is \<open>None\<close>. When
  the node has no child, the result is drawn by \<^verbatim>\<open>random.choice\<close> from the legal
  actions of the state: it is one of them, every one of them is returned for some draw,
  and with no legal action the result is \<open>None\<close>.
\<close>

theorem get_best_spec:
  assumes "\<forall>x. \<not> fgt ar x x"
    and "\<forall>x y z. fgt ar x y \<longrightarrow> fgt ar y z \<longrightarrow> fgt ar x z"
  shows
  "(children (nodes st ! n) \<noteq> [] \<and>
      (\<exists>kc \<in> set (children (nodes st ! n)).
         0 < visits (nodes st ! snd kc) \<and> fgt ar (avg ar st (snd kc)) (neg_inf ar)) \<longrightarrow>
      (\<exists>kc \<in> set (children (nodes st ! n)).
         0 < visits (nodes st ! snd kc) \<and>
         fst (get_best ar g st n s rng) = action (nodes st ! snd kc) \<and>
         (\<forall>kc' \<in> set (children (nodes st ! n)).
            0 < visits (nodes st ! snd kc') \<longrightarrow>
            \<not> fgt ar (avg ar st (snd kc')) (avg ar st (snd kc))))) \<and>
   (children (nodes st ! n) \<noteq> [] \<and>
      (\<forall>kc \<in> set (children (nodes st ! n)). visits (nodes st ! snd kc) = 0) \<longrightarrow>
      fst (get_best ar g st n s rng) = None) \<and>
   (children (nodes st ! n) = [] \<and> get_actions g s \<noteq> [] \<longrightarrow>
      fst (get_best ar g st n s rng) = Some (fst (pick (get_actions g s) rng)) \<and>
      fst (pick (get_actions g s) rng) \<in> set (get_actions g s) \<and>
      (\<forall>a \<in> set (get_actions g s). \<exists>r. fst (get_best ar g st n s (r # rng)) = Some a)) \<and>
   (children (nodes st ! n) = [] \<and> get_actions g s = [] \<longrightarrow>
      fst (get_best ar g st n s rng) = None)"
proof -
  let ?cs = "map snd (children (nodes st ! n))"
  let ?r = "get_best_loop ar st ?cs None (neg_inf ar)"
  have loop: "case ?r of
           None \<Rightarrow> (\<forall>c \<in> set ?cs. 0 < visits (nodes st ! c) \<longrightarrow>
                      \<not> fgt ar (avg ar st c) (neg_inf ar))
         | Some r \<Rightarrow> r \<in> set ?cs \<and> 0 < visits (nodes st ! r) \<and>
             (\<forall>c \<in> set ?cs. 0 < visits (nodes st ! c) \<longrightarrow>
                \<not> fgt ar (avg ar st c) (avg ar st r))"
    using get_best_loop_spec [where ar = ar and best = None and best_avg = "neg_inf ar"
        and st = st and cs = ?cs] assms
    by (auto split: option.splits)
  have visited: ?thesis if ne: "children (nodes st ! n) \<noteq> []"
  proof (cases ?r)
    case None
    with loop have "\<forall>c \<in> set ?cs. 0 < visits (nodes st ! c) \<longrightarrow>
                      \<not> fgt ar (avg ar st c) (neg_inf ar)" by simp
    with None ne show ?thesis by (auto simp: get_best_def)
  next
    case (Some r)
    with loop have r: "r \<in> set ?cs" "0 < visits (nodes st ! r)"
      "\<forall>c \<in> set ?cs. 0 < visits (nodes st ! c) \<longrightarrow> \<not> fgt ar (avg ar st c) (avg ar st r)"
      by simp_all
    from r(1) obtain kc where kc: "kc \<in> set (children (nodes st ! n))" "snd kc = r" by auto
    have "\<forall>kc' \<in> set (children (nodes st ! n)).
            0 < visits (nodes st ! snd kc') \<longrightarrow> \<not> fgt ar (avg ar st (snd kc')) (avg ar st r)"
      using r(3) by simp
    with kc r(2) Some ne show ?thesis
      by (auto simp: get_best_def)
  qed
  have unvisited: ?thesis if e: "children (nodes st ! n) = []"
  proof (cases "get_actions g s = []")
    case True
    with e show ?thesis by (simp add: get_best_def)
  next
    case False
    have g: "fst (get_best ar g st n s r) = Some (fst (pick (get_actions g s) r))" for r
      using e False by (simp add: get_best_def Let_def split: prod.splits)
    have "\<exists>r. fst (get_best ar g st n s (r # rng)) = Some a" if "a \<in> set (get_actions g s)" for a
      using pick_any [OF that, of rng] g by auto
    with e False g pick_mem [OF False, of rng] show ?thesis by auto
  qed
  from visited unvisited show ?thesis by blast
qed

theorem get_best_spec_witness:
  "children (nodes tree2 ! 0) = [(10, 1), (20, 2)] \<and>
   0 < visits (nodes tree2 ! 1) \<and> 0 < visits (nodes tree2 ! 2) \<and>
   fgt binary64 (avg binary64 tree2 2) (neg_inf binary64) \<and>
   fgt binary64 (avg binary64 tree2 2) (avg binary64 tree2 1) \<and>
   fst (get_best binary64 sum_game tree2 0 (1, 0) []) = action (nodes tree2 ! 2) \<and>
   fst (get_best binary64 sum_game (fresh_tree (Finite (1 / 2))) 0 (1, 0) [1]) = Some 20 \<and>
   fst (get_best binary64 sum_game (fresh_tree (Finite (1 / 2))) 0 (0, 0) [1]) = None \<and>
   children (nodes (add_child (fresh_tree (Finite (1 / 2))) 0 10 10) ! 0) = [(10 :: nat, 1)] \<and>
   visits (nodes (add_child (fresh_tree (Finite (1 / 2))) 0 (10 :: nat) (10 :: nat)) ! 1) = 0 \<and>
   fst (get_best binary64 sum_game (add_child (fresh_tree (Finite (1 / 2))) 0 10 10) 0 (1, 0) [])
     = None"
proof -
  have i: "\<forall>x. \<not> fgt binary64 x x" by (simp add: binary64_def gt64_irrefl)
  have t: "\<forall>x y z. fgt binary64 x y \<longrightarrow> fgt binary64 y z \<longrightarrow> fgt binary64 x z"
    using gt64_trans by (auto simp: binary64_def)
  have c: "children (nodes tree2 ! 0) = [(10, 1), (20, 2)]"
    "visits (nodes tree2 ! 1) = 1" "visits (nodes tree2 ! 2) = 1"
    "action (nodes tree2 ! 1) = Some 10" "action (nodes tree2 ! 2) = Some 20"
    by (simp_all add: tree2_def)
  have g: "fgt binary64 (Finite 20) (neg_inf binary64)" "fgt binary64 (Finite 20) (Finite 10)"
    "fgt binary64 (Finite 10) (neg_inf binary64)"
    by (simp_all add: binary64_def)
  from get_best_spec [OF i t, of tree2 0 sum_game "(1, 0)" "[]"] c g avg_tree2
  have 1: "fst (get_best binary64 sum_game tree2 0 (1, 0) []) = action (nodes tree2 ! 2)"
    by auto
  from get_best_spec [OF i t, of "fresh_tree (Finite (1 / 2))" 0 sum_game "(1, 0)" "[1]"]
  have 2: "fst (get_best binary64 sum_game (fresh_tree (Finite (1 / 2))) 0 (1, 0) [1]) = Some 20"
    by (simp add: sum_game_def fresh_tree_def TreeNode_def pick_def)
  from get_best_spec [OF i t, of "fresh_tree (Finite (1 / 2))" 0 sum_game "(0, 0)" "[1]"]
  have 3: "fst (get_best binary64 sum_game (fresh_tree (Finite (1 / 2))) 0 (0, 0) [1]) = None"
    by (simp add: sum_game_def fresh_tree_def TreeNode_def)
  from get_best_spec [OF i t, of "add_child (fresh_tree (Finite (1 / 2))) 0 10 10" 0 sum_game
      "(1, 0)" "[]"]
  have 4: "fst (get_best binary64 sum_game (add_child (fresh_tree (Finite (1 / 2))) 0 10 10) 0
             (1, 0) []) = None"
    by (simp add: fresh_tree_def TreeNode_def add_child_def)
  from 1 2 3 4 c g avg_tree2 show ?thesis
    by (simp add: fresh_tree_def TreeNode_def add_child_def)
qed

text \<open>
  The claim as it was stated fails in binary floating point. In \<open>tree_tie\<close> the mean
  of the outcomes of the child for action 20 is larger than that of the child for
  action 10, by one half; the sum \<open>10 ^ 16 + 1\<close> is rounded to \<open>10 ^ 16\<close>, the two
  averages are equal floats, and \<^verbatim>\<open>get_best\<close> returns action 10. In
  \<open>tree_neg_inf\<close> both children have been visited, no average exceeds the initial
  \<^verbatim>\<open>best_avg\<close>, and \<^verbatim>\<open>get_best\<close> returns \<open>None\<close>.
\<close>

theorem get_best_float_means:
  "children (nodes tree_tie ! 0) = [(10, 1), (20, 2)] \<and>
   0 < visits (nodes tree_tie ! 1) \<and> 0 < visits (nodes tree_tie ! 2) \<and>
   action (nodes tree_tie ! 1) = Some 10 \<and> action (nodes tree_tie ! 2) = Some 20 \<and>
   mean_outcome tree_tie 1 = Some 5000000000000000 \<and>
   mean_outcome tree_tie 2 = Some (5000000000000000 + 1 / 2) \<and>
   fst (get_best binary64 sum_game tree_tie 0 (1, 0) []) = Some 10 \<and>
   children (nodes tree_neg_inf ! 0) = [(10, 1), (20, 2)] \<and>
   0 < visits (nodes tree_neg_inf ! 1) \<and> 0 < visits (nodes tree_neg_inf ! 2) \<and>
   fst (get_best binary64 sum_game tree_neg_inf 0 (1, 0) []) = None"
proof -
  have a: "fst (get_best binary64 sum_game tree_tie 0 (1, 0) []) = Some 10"
    using avg_tree_tie by (simp add: get_best_def tree_tie_def binary64_def)
  have b: "fst (get_best binary64 sum_game tree_neg_inf 0 (1, 0) []) = None"
    using avg_tree_neg_inf by (simp add: get_best_def tree_neg_inf_def binary64_def)
  have c: "mean_outcome tree_tie 1 = Some 5000000000000000"
    "mean_outcome tree_tie 2 = Some (5000000000000000 + 1 / 2)"
    by (simp_all add: mean_outcome_def tree_tie_def)
  from a b c show ?thesis by (simp add: tree_tie_def tree_neg_inf_def)
qed

text \<open>
  Claim C2. In every store reachable from a fresh root by any sequence of \<^verbatim>\<open>step\<close>,
  \<^verbatim>\<open>expand\<close>, \<^verbatim>\<open>rollout\<close>, \<^verbatim>\<open>backpropagate\<close>, \<^verbatim>\<open>select\<close> and \<^verbatim>\<open>get_best\<close> calls, every node's \<^verbatim>\<open>visits\<close> equals
  the length of its \<^verbatim>\<open>results\<close>, and both equal the number of \<^verbatim>\<open>backpropagate\<close> calls made on
  that node.
\<close>

theorem visits_outcomes_backprops:
  assumes "reachable g st" "n < length (nodes st)"
  shows "visits (nodes st ! n) = length (results (nodes st ! n)) \<and>
         visits (nodes st ! n) = backprop_calls st n"
  using reachable_wf [OF assms(1)] assms(2) by (simp add: wf_store_def wf_node_def)

theorem visits_outcomes_backprops_witness:
  "reachable sum_game tree1 \<and> 1 < length (nodes tree1) \<and>
   visits (nodes tree1 ! 1) = length (results (nodes tree1 ! 1)) \<and>
   visits (nodes tree1 ! 1) = backprop_calls tree1 1"
proof -
  have "reachable sum_game (fresh_tree (Finite (1 / 2)) :: (nat, nat, float64) store)"
    by (rule reachable.fresh)
  moreover have "0 < length (nodes (fresh_tree (Finite (1 / 2)) :: (nat, nat, float64) store))"
    by (simp add: fresh_tree_def)
  ultimately have r: "reachable sum_game tree1"
    using step_sum_fresh by (rule reachable.by_step)
  have l: "1 < length (nodes tree1)" by (simp add: tree1_def)
  from r l visits_outcomes_backprops [OF r l] show ?thesis by simp
qed

text \<open>
  Claim C3. After \<open>N\<close> iterations of the loop of \<^verbatim>\<open>choose_card\<close> on a fresh tree, the
  root's \<^verbatim>\<open>visits\<close>, and the number of \<^verbatim>\<open>backpropagate\<close> calls on the root, is the
  number of rollouts that completed; an iteration completes at most one, so when each
  of the \<open>N\<close> iterations completed its rollout the root's \<^verbatim>\<open>visits\<close> is exactly \<open>N\<close>.
\<close>

theorem root_visits_conservation:
  assumes "iterate g N (fresh_tree p) bs rng = Some (Inr (t, rng'))"
  shows "visits (nodes t ! 0) = completed_rollouts t \<and>
         backprop_calls t 0 = completed_rollouts t \<and>
         completed_rollouts t \<le> N \<and>
         (completed_rollouts t = N \<longrightarrow> visits (nodes t ! 0) = N)"
proof -
  from iterate_post [OF assms wf_fresh_tree] have
    wf: "wf_store t" and
    v: "visits (nodes t ! 0) = completed_rollouts t" and
    le: "completed_rollouts t \<le> N"
    by (simp_all add: fresh_tree_def TreeNode_def completed_rollouts_def)
  from wf have "wf_node t 0" by (simp add: wf_store_def)
  then have "visits (nodes t ! 0) = backprop_calls t 0" by (simp add: wf_node_def)
  with v le show ?thesis by simp
qed

theorem root_visits_conservation_witness:
  "iterate sum_game 2 (fresh_tree (Finite (1 / 2))) (1, 0) [0] = Some (Inr (tree2, [])) \<and>
   completed_rollouts tree2 = 2 \<and> visits (nodes tree2 ! 0) = 2"
proof -
  have c: "completed_rollouts tree2 = 2" by (simp add: completed_rollouts_def tree2_def)
  from root_visits_conservation [OF iterate_sum] c iterate_sum show ?thesis by simp
qed

text \<open>
  Claim C4 does not hold of \<^verbatim>\<open>select\<close> at a node without children when the state has
  no legal action: the node does not have fewer children than there are legal actions,
  so \<^verbatim>\<open>select\<close> goes to the branch that chooses a child, and \<^verbatim>\<open>max\<close> over the empty
  \<^verbatim>\<open>children\<close> raises ValueError, where \<^verbatim>\<open>step\<close> returns at once and \<^verbatim>\<open>rollout\<close> stops.
  Node 1 of \<open>tree1\<close> is such a leaf, and \<open>(0, 10)\<close> such a state.
\<close>

theorem select_without_child_raises:
  "\<not> length (children (nodes tree1 ! 1)) < length (get_actions sum_game (0, 10)) \<and>
   children (nodes tree1 ! 1) = [] \<and>
   step sum_game tree1 1 (0, 10) [] = Some (Inr (tree1, (0, 10), [])) \<and>
   select ar sum_game tree1 1 (0, 10) [] = Some (Inl ValueError)"
  by (simp add: select.simps step.simps tree1_def sum_game_def max_key_def)

text \<open>
  Claim C5 does not hold of \<^verbatim>\<open>select\<close>: with one child for action 10 and a state that
  offers 10 and 20, \<^verbatim>\<open>select\<close> expands over both actions, draws 10 again, and the entry
  for key 10 is overwritten with a fresh node; the old child and its outcome are no
  longer in the tree.
\<close>

theorem select_replaces_child:
  "map_of (children (nodes tree1 ! 0)) 10 = Some 1 \<and>
   results (nodes tree1 ! 1) = [Finite 10] \<and>
   select ar sum_game tree1 0 (1, 5) [0] = Some (Inr (tree1_replaced, (0, 15), [])) \<and>
   map_of (children (nodes tree1_replaced ! 0)) 10 = Some 2 \<and>
   results (nodes tree1_replaced ! 2) = [Finite 15] \<and>
   children (nodes tree1_replaced ! 0) = [(10, 2)]"
  by (simp add: select.simps rollout_loop.simps backpropagate.simps run_simps tree1_def
      tree1_replaced_def)


text \<open>
  Claim C7. On a node of a well-formed tree where every legal action's key has a child:
  with no legal action \<^verbatim>\<open>step\<close> returns at once; otherwise it draws a legal action, advances
  the state by it and goes on with \<^verbatim>\<open>step\<close> on the child stored under the action's key; and
  whenever it returns, the node's \<^verbatim>\<open>children\<close> are what they were.
\<close>

theorem step_fully_expanded:
  assumes "wf_store st" "n < length (nodes st)"
    and "\<forall>a \<in> set (get_actions g s). map_of (children (nodes st ! n)) (key g a) \<noteq> None"
  shows "(get_actions g s = [] \<longrightarrow> step g st n s rng = Some (Inr (st, s, rng))) \<and>
         (get_actions g s \<noteq> [] \<longrightarrow>
            (\<exists>a \<in> set (get_actions g s). \<exists>c rng1.
               pick (get_actions g s) rng = (a, rng1) \<and>
               map_of (children (nodes st ! n)) (key g a) = Some c \<and>
               step g st n s rng =
                 (case state_step g s a rng1 of (s', rng2) \<Rightarrow> step g st c s' rng2))) \<and>
         (\<forall>st' s' rng'. step g st n s rng = Some (Inr (st', s', rng')) \<longrightarrow>
            children (nodes st' ! n) = children (nodes st ! n))"
proof (intro conjI impI allI)
  assume "get_actions g s = []"
  then show "step g st n s rng = Some (Inr (st, s, rng))" by (rule step_no_actions)
next
  assume "get_actions g s \<noteq> []"
  then show "\<exists>a \<in> set (get_actions g s). \<exists>c rng1.
               pick (get_actions g s) rng = (a, rng1) \<and>
               map_of (children (nodes st ! n)) (key g a) = Some c \<and>
               step g st n s rng =
                 (case state_step g s a rng1 of (s', rng2) \<Rightarrow> step g st c s' rng2)"
    using assms(3) by (rule step_descends)
next
  fix st' s' rng'
  assume r: "step g st n s rng = Some (Inr (st', s', rng'))"
  show "children (nodes st' ! n) = children (nodes st ! n)"
  proof (cases "get_actions g s = []")
    case True
    with r show ?thesis by (simp add: step_no_actions)
  next
    case False
    from step_descends [OF False assms(3), of rng] obtain a c rng1 where
      c: "map_of (children (nodes st ! n)) (key g a) = Some c" and
      eq: "step g st n s rng =
             (case state_step g s a rng1 of (s', rng2) \<Rightarrow> step g st c s' rng2)"
      by blast
    obtain s1 rng2 where ss: "state_step g s a rng1 = (s1, rng2)" by force
    with eq r have rec: "step g st c s1 rng2 = Some (Inr (st', s', rng'))" by simp
    have "(key g a, c) \<in> set (children (nodes st ! n))" using c by (rule map_of_SomeD)
    moreover have "wf_node st n" using assms(1,2) by (simp add: wf_store_def)
    ultimately have cn: "n < c" "c < length (nodes st)" by (auto simp: wf_node_def)
    from step_post [OF rec assms(1) cn(2)] cn(1) show ?thesis by (simp add: step_rel_def)
  qed
qed

theorem step_fully_expanded_witness:
  "wf_store tree2 \<and> 0 < length (nodes tree2) \<and>
   map_of (children (nodes tree2 ! 0)) (key sum_game 10) \<noteq> None \<and>
   map_of (children (nodes tree2 ! 0)) (key sum_game 20) \<noteq> None \<and>
   get_actions sum_game (1, 0) = [10, 20] \<and>
   step sum_game tree2 0 (1, 0) [1] = step sum_game tree2 2 (0, 20) [] \<and>
   step sum_game tree2 0 (1, 0) [1] = Some (Inr (tree2, (0, 20), []))"
proof -
  have wf: "wf_store tree2" using reachable_tree2 by (rule reachable_wf)
  have l: "0 < length (nodes tree2)" by (simp add: tree2_def)
  have a: "get_actions sum_game (1, 0) = [10, 20]" by (simp add: sum_game_def)
  have e: "\<forall>a \<in> set (get_actions sum_game (1, 0)).
             map_of (children (nodes tree2 ! 0)) (key sum_game a) \<noteq> None"
    by (simp add: sum_game_def tree2_def)
  from step_fully_expanded [OF wf l e, of "[1]"] a
  have "step sum_game tree2 0 (1, 0) [1] = step sum_game tree2 2 (0, 20) []"
    by (auto simp: pick_def sum_game_def tree2_def)
  moreover have "step sum_game tree2 2 (0, 20) [] = Some (Inr (tree2, (0, 20), []))"
    by (rule step_no_actions) (simp add: sum_game_def)
  ultimately show ?thesis using wf l a e by simp
qed

text \<open>
  Claim C8. From a fresh tree, when every snapshot of the root state offers exactly the
  actions \<open>X\<close> and \<open>Y\<close>, with different keys, and two iterations have returned,
  the root has exactly two children, one under each key, and each has been visited
  once.
\<close>

theorem scenario_two_actions:
  fixes g :: "('s, 'a, 'k, 'r) game"
  assumes "key g X \<noteq> key g Y"
    and "\<forall>r. get_actions g (fst (copy_undeterministic g bs r)) = [X, Y]"
    and "iterate g 2 (fresh_tree p) bs rng = Some (Inr (t, rng'))"
  shows "\<exists>cx cy. cx \<noteq> cy \<and>
           (children (nodes t ! 0) = [(key g X, cx), (key g Y, cy)] \<or>
            children (nodes t ! 0) = [(key g Y, cy), (key g X, cx)]) \<and>
           visits (nodes t ! cx) = 1 \<and> visits (nodes t ! cy) = 1"
proof -
  let ?f = "fresh_tree p :: ('a, 'k, 'r) store"
  have it: "iterate g (Suc (Suc 0)) ?f bs rng = Some (Inr (t, rng'))"
    using assms(3) by (simp add: numeral_2_eq_2)
  obtain sample1 rng1 where cp1: "copy_undeterministic g bs rng = (sample1, rng1)" by force
  from it cp1 obtain t1 s1 rng2 where
    st1: "step g ?f 0 sample1 rng1 = Some (Inr (t1, s1, rng2))" and
    it1: "iterate g (Suc 0) t1 bs rng2 = Some (Inr (t, rng'))"
    by (auto split: option.splits sum.splits)
  obtain sample2 rng3 where cp2: "copy_undeterministic g bs rng2 = (sample2, rng3)" by force
  from it1 cp2 obtain s2 where
    st2: "step g t1 0 sample2 rng3 = Some (Inr (t, s2, rng'))"
    by (auto split: option.splits sum.splits)
  have a1: "get_actions g sample1 = [X, Y]" using assms(2) cp1 by (metis fst_conv)
  have a2: "get_actions g sample2 = [X, Y]" using assms(2) cp2 by (metis fst_conv)
  have f0: "children (nodes ?f ! 0) = []" "length (nodes ?f) = 1"
    by (simp_all add: fresh_tree_def TreeNode_def)
  have wf0: "wf_store ?f" by (rule wf_fresh_tree)
  have "step g ?f 0 sample1 rng1 = expand g ?f 0 sample1 [X, Y] rng1"
    by (rule step_expands) (simp_all add: a1 f0)
  with st1 have e1: "expand g ?f 0 sample1 [X, Y] rng1 = Some (Inr (t1, s1, rng2))" by simp
  have n0: "0 < length (nodes ?f)" by (simp add: f0)
  from expand_post [OF wf0 n0 e1] f0 obtain a where
    a: "a = X \<or> a = Y" and
    t1: "wf_store t1" "length (nodes t1) = 2" "children (nodes t1 ! 0) = [(key g a, 1)]"
        "visits (nodes t1 ! 1) = 1"
    by auto
  define b where "b = (if a = X then Y else X)"
  have kab: "key g a \<noteq> key g b" using a assms(1) by (auto simp: b_def)
  have un: "filter (\<lambda>x. map_of (children (nodes t1 ! 0)) (key g x) = None) (get_actions g sample2)
             = [b]"
    using a assms(1) by (auto simp: a2 t1(3) b_def)
  have "step g t1 0 sample2 rng3 = expand g t1 0 sample2 [b] rng3"
    using un by (rule step_expands [rotated]) (simp_all add: a2)
  with st2 have e2: "expand g t1 0 sample2 [b] rng3 = Some (Inr (t, s2, rng'))" by simp
  have n1: "0 < length (nodes t1)" by (simp add: t1(2))
  from expand_post [OF t1(1) n1 e2] t1(2,3) kab have
    t: "children (nodes t ! 0) = [(key g a, 1), (key g b, 2)]" "visits (nodes t ! 2) = 1"
    by auto
  have "nodes t ! 1 = nodes t1 ! 1"
    using t1(1) e2 by (rule expand_root_frame) (simp_all add: t1(2))
  with t1(4) have v1: "visits (nodes t ! 1) = 1" by simp
  show ?thesis
  proof (cases "a = X")
    case True
    then have "b = Y" by (simp add: b_def)
    with True t v1 have "(1::nat) \<noteq> 2 \<and>
           (children (nodes t ! 0) = [(key g X, 1), (key g Y, 2)] \<or>
            children (nodes t ! 0) = [(key g Y, 2), (key g X, 1)]) \<and>
           visits (nodes t ! 1) = 1 \<and> visits (nodes t ! 2) = 1" by simp
    then show ?thesis by blast
  next
    case False
    with a have "a = Y" "b = X" by (simp_all add: b_def)
    with t v1 have "(2::nat) \<noteq> 1 \<and>
           (children (nodes t ! 0) = [(key g X, 2), (key g Y, 1)] \<or>
            children (nodes t ! 0) = [(key g Y, 1), (key g X, 2)]) \<and>
           visits (nodes t ! 2) = 1 \<and> visits (nodes t ! 1) = 1" by simp
    then show ?thesis by blast
  qed
qed

theorem scenario_two_actions_witness:
  "key sum_game 10 \<noteq> key sum_game 20 \<and>
   (\<forall>r. get_actions sum_game (fst (copy_undeterministic sum_game (1, 0) r)) = [10, 20]) \<and>
   iterate sum_game 2 (fresh_tree (Finite (1 / 2))) (1, 0) [0] = Some (Inr (tree2, [])) \<and>
   children (nodes tree2 ! 0) = [(key sum_game 10, 1), (key sum_game 20, 2)] \<and>
   visits (nodes tree2 ! 1) = 1 \<and> visits (nodes tree2 ! 2) = 1"
proof -
  have k: "key sum_game 10 \<noteq> key sum_game 20" by (simp add: sum_game_def)
  have a: "\<forall>r. get_actions sum_game (fst (copy_undeterministic sum_game (1, 0) r)) = [10, 20]"
    by (simp add: sum_game_def)
  from scenario_two_actions [OF k a iterate_sum] k a iterate_sum show ?thesis
    by (simp add: tree2_def sum_game_def)
qed

text \<open>
  Claim C9. On a node with at least one child \<^verbatim>\<open>get_best\<close> returns the same action for any
  two states, any two sequences of draws and any two games, and even for any two trees
  whose children have the same visits, outcomes and actions in the same order; it
  draws nothing.
\<close>

theorem get_best_children_only:
  assumes "children (nodes st ! n) \<noteq> []"
    and "child_stats st n = child_stats st' n'"
  shows "get_best ar g st n s1 rng1 = (fst (get_best ar g' st' n' s2 rng2), rng1)"
proof -
  let ?cs = "map snd (children (nodes st ! n))"
  let ?cs' = "map snd (children (nodes st' ! n'))"
  have m: "map (node_stats st) ?cs = map (node_stats st') ?cs'"
    using assms(2) by (simp add: child_stats_def node_stats_def comp_def)
  have ne': "children (nodes st' ! n') \<noteq> []"
    using assms by (auto simp: child_stats_def)
  have "map_option (node_stats st) (get_best_loop ar st ?cs None (neg_inf ar))
         = map_option (node_stats st') (get_best_loop ar st' ?cs' None (neg_inf ar))"
    using m by (rule get_best_loop_stats) simp
  then have "(case get_best_loop ar st ?cs None (neg_inf ar) of None \<Rightarrow> None
                | Some b \<Rightarrow> action (nodes st ! b))
           = (case get_best_loop ar st' ?cs' None (neg_inf ar) of None \<Rightarrow> None
                | Some b \<Rightarrow> action (nodes st' ! b))"
    by (auto simp: node_stats_def split: option.splits)
  then show ?thesis
    using assms(1) ne' by (simp add: get_best_def split: option.splits)
qed

theorem get_best_children_only_witness:
  "children (nodes tree2 ! 0) \<noteq> [] \<and>
   get_best binary64 sum_game tree2 0 (1, 0) [3]
     = (fst (get_best binary64 sum_game tree2 0 (0, 7) [5, 6]), [3])"
proof -
  have ne: "children (nodes tree2 ! 0) \<noteq> []" by (simp add: tree2_def)
  from get_best_children_only [OF ne refl, of binary64 sum_game "(1, 0)" "[3]" sum_game "(0, 7)"
      "[5, 6]"] ne
  show ?thesis by simp
qed

text \<open>
  Claim C10. \<^verbatim>\<open>select\<close> on a node without children, with a state that has no legal action,
  raises ValueError. In the branch that does not expand, this is the only way the
  maximum fails: with no child it raises, and with at least one child it goes on with
  \<^verbatim>\<open>select\<close> on a child.
\<close>

theorem select_needs_a_child:
  "(children (nodes st ! n) = [] \<and> get_actions g s = [] \<longrightarrow>
      select ar g st n s rng = Some (Inl ValueError)) \<and>
   (\<not> length (children (nodes st ! n)) < length (get_actions g s) \<longrightarrow>
      (children (nodes st ! n) = [] \<longrightarrow> select ar g st n s rng = Some (Inl ValueError)) \<and>
      (children (nodes st ! n) \<noteq> [] \<longrightarrow>
         (\<exists>kc \<in> set (children (nodes st ! n)).
            select ar g st n s rng =
              (case apply_action g s (fst kc) rng of
                 (s', rng1) \<Rightarrow> select ar g st (snd kc) s' rng1))))"
proof -
  have a: "select ar g st n s rng = Some (Inl ValueError)"
    if "\<not> length (children (nodes st ! n)) < length (get_actions g s)"
      "children (nodes st ! n) = []"
    using that by (rule select_raises)
  have b: "\<exists>kc \<in> set (children (nodes st ! n)).
            select ar g st n s rng =
              (case apply_action g s (fst kc) rng of
                 (s', rng1) \<Rightarrow> select ar g st (snd kc) s' rng1)"
    if "\<not> length (children (nodes st ! n)) < length (get_actions g s)"
      "children (nodes st ! n) \<noteq> []"
    using select_descends [OF that, where rng = rng and ar = ar] by force
  from a b show ?thesis by auto
qed

theorem select_needs_a_child_witness:
  "children (nodes (fresh_tree (Finite (1 / 2)) :: (nat, nat, float64) store) ! 0) = [] \<and>
   get_actions sum_game (0, 0) = [] \<and>
   (\<forall>ar. select ar sum_game (fresh_tree (Finite (1 / 2))) 0 (0, 0) [] = Some (Inl ValueError))"
proof -
  have "select ar sum_game (fresh_tree (Finite (1 / 2))) 0 (0, 0) [] = Some (Inl ValueError)"
    for ar :: "float64 ucb_arith"
    using select_needs_a_child [of "fresh_tree (Finite (1 / 2))" 0 sum_game "(0, 0)" ar "[]"]
    by (simp add: fresh_tree_def TreeNode_def sum_game_def)
  then show ?thesis by (simp add: fresh_tree_def TreeNode_def sum_game_def)
qed

end
